theory Spec2Isabelle
  imports Main "HOL-Library.Sublist"
begin

section \<open>Presubmit checks of pw\_presubmit/tools.py\<close>

text \<open>
  The development embeds the check runner of \<^verbatim>\<open>pw_presubmit/py/pw_presubmit/tools.py\<close>:
  the path filter, the wrapping of check functions, the resolution of a program against a
  list of paths, and the sequential execution of the resolved program.

  Conventions of the embedding.
  \<^item> A Python \<^verbatim>\<open>str\<close> is a \<open>string\<close>, a character being its code point; the strings
    of this type are those with code points below 256. On these characters the word
    class of \<^verbatim>\<open>re\<close> and \<^verbatim>\<open>str.lower\<close> are those of Unicode.
  \<^item> A \<^verbatim>\<open>pathlib.Path\<close> is its list of components and a flag for a leading root.
  \<^item> A Python object that is compared by identity (\<^verbatim>\<open>_Check\<close> has no \<^verbatim>\<open>__eq__\<close>) carries
    its identity in a field.
  \<^item> An exception is a value; a function that may raise returns a sum, \<open>Inl\<close> the exception.
  \<^item> What a check function does when called is a function of the context it receives.
  \<^item> Texts that are printed and records logged at debug level are left out; warnings and
    exception records are kept, as are the calls of check functions and the log files.
    Creating a directory or a log file never fails.
  \<^item> The module \<^verbatim>\<open>re\<close> is a parameter of the functions that compile patterns.
\<close>

subsection \<open>Paths\<close>

record path =
  anchored :: bool
  parts :: "string list"

fun join :: "string \<Rightarrow> string list \<Rightarrow> string" where
  "join sep [] = []"
| "join sep [x] = x"
| "join sep (x # y # ys) = x @ sep @ join sep (y # ys)"

text \<open>\<^verbatim>\<open>str(path)\<close>: the textual form; the empty relative path prints as a dot.\<close>

definition str :: "path \<Rightarrow> string" where
  "str p = (if anchored p then ''/'' @ join ''/'' (parts p)
            else if parts p = [] then ''.'' else join ''/'' (parts p))"

text \<open>\<^verbatim>\<open>Path.joinpath\<close> with a path argument: an anchored argument replaces the receiver.\<close>

definition joinpath :: "path \<Rightarrow> path \<Rightarrow> path" where
  "joinpath a b = (if anchored b then b else a\<lparr>parts := parts a @ parts b\<rparr>)"

text \<open>
  The path that pathlib parses from a string without separator that is not a dot: one
  component, or none for the empty string.
\<close>

definition segment :: "string \<Rightarrow> path" where
  "segment s = \<lparr>anchored = False, parts = (if s = [] then [] else [s])\<rparr>"

text \<open>\<^verbatim>\<open>Path.absolute\<close>, the working directory made explicit.\<close>

definition absolute :: "path \<Rightarrow> path \<Rightarrow> path" where
  "absolute wd p = (if anchored p then p else joinpath wd p)"

subsection \<open>Exceptions, results, contexts and callables\<close>

text \<open>
  \<open>PresubmitFailure\<close> carries \<^verbatim>\<open>str(failure)\<close>. \<open>TypeError\<close>, \<open>AttributeError\<close>,
  \<open>ReError\<close> and \<open>OtherException\<close> are subclasses of \<^verbatim>\<open>Exception\<close>;
  \<open>KeyboardInterrupt\<close> and \<open>OtherBaseException\<close> (\<^verbatim>\<open>SystemExit\<close>, \<^verbatim>\<open>GeneratorExit\<close>)
  are not.
\<close>

datatype py_exception =
    PresubmitFailure string
  | TypeError string
  | AttributeError
  | ReError
  | OtherException string
  | KeyboardInterrupt
  | OtherBaseException string

text \<open>
  \<^verbatim>\<open>PresubmitFailure.__init__(description='', path=None)\<close>: the message is
  \<^verbatim>\<open>f'{path}: {description}' if path else description\<close>. The offending path is given by
  its textual form; \<^verbatim>\<open>None\<close> and the empty string are falsy.
\<close>

definition PresubmitFailure_init :: "string \<Rightarrow> string option \<Rightarrow> py_exception" where
  "PresubmitFailure_init description pth =
     (case pth of
        None \<Rightarrow> PresubmitFailure description
      | Some p \<Rightarrow> if p \<noteq> [] then PresubmitFailure (p @ '': '' @ description)
                  else PresubmitFailure description)"

datatype Result = PASS | FAIL | CANCEL

record PresubmitContext =
  repository_root :: path
  output_directory :: path
  paths :: "path list"

datatype outcome = Returns | Raises py_exception

text \<open>
  A parameter of a Python signature: positional (with or without default),
  \<^verbatim>\<open>*args\<close>, keyword-only (with or without default), \<^verbatim>\<open>**kwargs\<close>.
\<close>

datatype parameter =
    Positional bool
  | VarPositional
  | KeywordOnly bool
  | VarKeyword

text \<open>
  A callable: its \<^verbatim>\<open>__name__\<close>, which a function has and an object such as a
  \<^verbatim>\<open>functools.partial\<close> has not, the parameters of \<^verbatim>\<open>inspect.signature\<close>, and what its
  body does once the arguments are bound.
\<close>

record callable =
  fn_name :: "string option"
  parameters :: "parameter list"
  body :: "PresubmitContext \<Rightarrow> outcome"

text \<open>
  Python binds the call \<^verbatim>\<open>f(ctx)\<close>, one positional argument, when some parameter can take
  it, at most one positional parameter has no default, and no keyword-only parameter lacks
  a default; otherwise the call raises \<^verbatim>\<open>TypeError\<close> before the body runs.
\<close>

definition binds_one_positional :: "parameter list \<Rightarrow> bool" where
  "binds_one_positional ps \<longleftrightarrow>
     (list_ex (\<lambda>p. p = Positional True \<or> p = Positional False \<or> p = VarPositional) ps)
     \<and> length (filter (\<lambda>p. p = Positional False) ps) \<le> 1
     \<and> \<not> list_ex (\<lambda>p. p = KeywordOnly False) ps"

definition call :: "callable \<Rightarrow> PresubmitContext \<Rightarrow> outcome" where
  "call f ctx = (if binds_one_positional (parameters f) then body f ctx
                 else Raises (TypeError ''the arguments do not match the parameters''))"

subsection \<open>Path filters and checks\<close>

text \<open>\<^verbatim>\<open>class _PathFilter(NamedTuple)\<close>: equality is equality of the two fields.\<close>

record PathFilter =
  endswith :: "string list"
  exclude :: "string list"

definition PathFilter_default :: PathFilter where
  "PathFilter_default = \<lparr>endswith = [''''], exclude = []\<rparr>"

text \<open>
  The identity of a \<^verbatim>\<open>_Check\<close> object: one that exists before the program is resolved, or
  the one that \<^verbatim>\<open>_apply_filters\<close> constructs for the entry at a position of the program.
\<close>

datatype obj_id = Registered nat | Wrapper nat

record Check =
  check_id :: obj_id
  check :: callable
  filter' :: PathFilter
  always_run :: bool
  check_name :: string

text \<open>
  \<^verbatim>\<open>_Check.__init__(check_function, path_filter=_PathFilter(), always_run=True)\<close>: the
  last statement, \<^verbatim>\<open>self.__name__ = self._check.__name__\<close>, raises \<^verbatim>\<open>AttributeError\<close>
  for a callable without a name.
\<close>

definition Check_init ::
  "obj_id \<Rightarrow> callable \<Rightarrow> PathFilter \<Rightarrow> bool \<Rightarrow> py_exception + Check" where
  "Check_init oid check_function path_filter ar =
     (case fn_name check_function of
        None \<Rightarrow> Inl AttributeError
      | Some nm \<Rightarrow>
          Inr \<lparr>check_id = oid, check = check_function, filter' = path_filter,
               always_run = ar, check_name = nm\<rparr>)"

definition name :: "Check \<Rightarrow> string" where
  "name self = check_name self"

datatype log_record = Warning string | ExceptionRecord string

text \<open>The class tests of the \<^verbatim>\<open>except\<close> clauses, and \<^verbatim>\<open>str\<close> of an exception.\<close>

fun isinstance_PresubmitFailure :: "py_exception \<Rightarrow> bool" where
  "isinstance_PresubmitFailure (PresubmitFailure m) = True"
| "isinstance_PresubmitFailure e = False"

fun isinstance_Exception :: "py_exception \<Rightarrow> bool" where
  "isinstance_Exception KeyboardInterrupt = False"
| "isinstance_Exception (OtherBaseException m) = False"
| "isinstance_Exception e = True"

fun str_exception :: "py_exception \<Rightarrow> string" where
  "str_exception (PresubmitFailure m) = m"
| "str_exception (TypeError m) = m"
| "str_exception AttributeError = []"
| "str_exception ReError = []"
| "str_exception (OtherException m) = m"
| "str_exception KeyboardInterrupt = []"
| "str_exception (OtherBaseException m) = m"

text \<open>
  \<^verbatim>\<open>_Check._call_function\<close>: the result, or the exception that no clause catches, and
  the records logged. \<^verbatim>\<open>_LOG.exception\<close> writes its message with the traceback.
\<close>

definition call_function ::
  "Check \<Rightarrow> PresubmitContext \<Rightarrow> (py_exception + Result) \<times> log_record list" where
  "call_function self ctx =
     (case call (check self) ctx of
        Returns \<Rightarrow> (Inr PASS, [])
      | Raises failure \<Rightarrow>
          if isinstance_PresubmitFailure failure then
            (Inr FAIL, if str_exception failure \<noteq> [] then [Warning (str_exception failure)] else [])
          else if isinstance_Exception failure then
            (Inr FAIL, [ExceptionRecord (''Presubmit check '' @ name self @ '' failed!'')])
          else if failure = KeyboardInterrupt then (Inr CANCEL, [])
          else (Inl failure, []))"

text \<open>
  \<^verbatim>\<open>_Check.run(ctx, count, total)\<close>; \<open>count\<close> and \<open>total\<close> only appear in what is printed.
\<close>

definition run_check ::
  "Check \<Rightarrow> PresubmitContext \<Rightarrow> nat \<Rightarrow> nat \<Rightarrow> (py_exception + Result) \<times> log_record list" where
  "run_check self ctx i n = call_function self ctx"

subsection \<open>The name of a log directory\<close>

text \<open>
  The alphanumeric characters of Unicode below 256, which with the underscore are the word
  characters of \<^verbatim>\<open>re\<close> for a \<^verbatim>\<open>str\<close> pattern: the digits and letters of ASCII, the
  ordinal indicators, the superscript digits, the micro sign, the vulgar fractions, and
  the letters from 192 on, but for the multiplication and the division sign.
\<close>

definition isalnum :: "char \<Rightarrow> bool" where
  "isalnum c = (let k = (of_char c :: nat) in
     (48 \<le> k \<and> k \<le> 57) \<or> (65 \<le> k \<and> k \<le> 90) \<or> (97 \<le> k \<and> k \<le> 122)
     \<or> k = 170 \<or> k = 178 \<or> k = 179 \<or> k = 181 \<or> k = 185 \<or> k = 186
     \<or> (188 \<le> k \<and> k \<le> 190) \<or> (192 \<le> k \<and> k \<le> 214)
     \<or> (216 \<le> k \<and> k \<le> 246) \<or> (248 \<le> k \<and> k \<le> 255))"

text \<open>
  \<^verbatim>\<open>str.lower\<close> on these characters works character by character: the capital letters
  of ASCII and those from 192 to 222, but for the multiplication sign, go 32 up.
\<close>

definition lower_char :: "char \<Rightarrow> char" where
  "lower_char c = (let k = (of_char c :: nat) in
     if (65 \<le> k \<and> k \<le> 90) \<or> (192 \<le> k \<and> k \<le> 214) \<or> (216 \<le> k \<and> k \<le> 222)
     then char_of (k + 32) else c)"

definition lower :: "string \<Rightarrow> string" where
  "lower s = map lower_char s"

text \<open>
  \<^verbatim>\<open>re.sub\<close> for a pattern \<^verbatim>\<open>[...]+\<close>, the class given as a predicate: scanning from the
  left, a character of the class starts a match that takes every following character of the
  class and is replaced by \<open>repl\<close>; any other character is copied.
\<close>

function re_sub_class_plus :: "(char \<Rightarrow> bool) \<Rightarrow> string \<Rightarrow> string \<Rightarrow> string" where
  "re_sub_class_plus cls repl [] = []"
| "re_sub_class_plus cls repl (c # cs) =
     (if cls c then repl @ re_sub_class_plus cls repl (dropWhile cls cs)
      else c # re_sub_class_plus cls repl cs)"
  by pat_completeness auto
termination
  by (relation "measure (\<lambda>(cls, repl, s). length s)")
     (auto simp: less_Suc_eq_le length_dropWhile_le)

text \<open>The class \<^verbatim>\<open>[\W_]\<close>: not a word character (alphanumeric or underscore), or underscore.\<close>

definition nonword_or_underscore :: "char \<Rightarrow> bool" where
  "nonword_or_underscore c \<longleftrightarrow> \<not> (isalnum c \<or> c = CHR ''_'') \<or> c = CHR ''_''"

text \<open>\<^verbatim>\<open>re.sub(r'[\W_]+', '_', name).lower()\<close>\<close>

definition sanitized_name :: "string \<Rightarrow> string" where
  "sanitized_name nm = lower (re_sub_class_plus nonword_or_underscore ''_'' nm)"

subsection \<open>The runner\<close>

record Presubmit =
  presubmit_repository_root :: path
  presubmit_output_directory :: path
  presubmit_paths :: "path list"

text \<open>
  What a run changes outside itself: the calls of check functions, in order, each with the
  name of the check and the context passed, and the log files, by absolute path. The
  working directory is read only.
\<close>

record world =
  cwd :: path
  calls :: "(string \<times> PresubmitContext) list"
  files :: "path \<rightharpoonup> log_record list"

text \<open>
  \<^verbatim>\<open>Presubmit._context(name, paths)\<close>: the file of the handler (\<^verbatim>\<open>logging.FileHandler\<close>
  keeps the absolute path of its file) and the context that is yielded.
\<close>

definition presubmit_context :: "Presubmit \<Rightarrow> path \<Rightarrow> string \<Rightarrow> path list \<Rightarrow> path \<times> PresubmitContext" where
  "presubmit_context self wd nm pths =
     (let out_dir = joinpath (presubmit_output_directory self) (segment (sanitized_name nm))
      in (absolute wd (joinpath out_dir (segment ''step.log'')),
          \<lparr>repository_root = absolute wd (presubmit_repository_root self),
           output_directory = absolute wd out_dir,
           paths = pths\<rparr>))"

text \<open>
  The loop of \<^verbatim>\<open>Presubmit._execute_checks\<close> from entry \<open>i\<close> on, with the counters so far.
  The handler opens its file with mode \<^verbatim>\<open>'w'\<close>, so the file holds the records of this
  check alone.
\<close>

fun execute_loop ::
  "Presubmit \<Rightarrow> bool \<Rightarrow> nat \<Rightarrow> nat \<Rightarrow> (Check \<times> path list) list \<Rightarrow> int \<Rightarrow> int \<Rightarrow> world
     \<Rightarrow> (py_exception + int \<times> int) \<times> world" where
  "execute_loop self keep_going n i [] passed failed w = (Inr (passed, failed), w)"
| "execute_loop self keep_going n i ((chk, pths) # rest) passed failed w =
     (let pths' = map (joinpath (presubmit_repository_root self)) pths;
          (log_file, ctx) = presubmit_context self (cwd w) (name chk) pths';
          (result, records) = run_check chk ctx i n;
          w' = w\<lparr>calls := calls w @ [(name chk, ctx)],
                 files := (files w)(log_file \<mapsto> records)\<rparr>
      in case result of
           Inl e \<Rightarrow> (Inl e, w')
         | Inr PASS \<Rightarrow> execute_loop self keep_going n (Suc i) rest (passed + 1) failed w'
         | Inr CANCEL \<Rightarrow> (Inr (passed, failed), w')
         | Inr FAIL \<Rightarrow>
             if \<not> keep_going then (Inr (passed, failed + 1), w')
             else execute_loop self keep_going n (Suc i) rest passed (failed + 1) w')"

text \<open>\<^verbatim>\<open>Presubmit._execute_checks(program, keep_going)\<close>: (passed, failed, skipped).\<close>

definition execute_checks ::
  "Presubmit \<Rightarrow> (Check \<times> path list) list \<Rightarrow> bool \<Rightarrow> world
     \<Rightarrow> (py_exception + int \<times> int \<times> int) \<times> world" where
  "execute_checks self program keep_going w =
     (case execute_loop self keep_going (length program) 1 program 0 0 w of
        (Inl e, w') \<Rightarrow> (Inl e, w')
      | (Inr (passed, failed), w') \<Rightarrow>
          (Inr (passed, failed, int (length program) - passed - failed), w'))"


text \<open>\<^verbatim>\<open>not failed and not skipped\<close>: an \<^verbatim>\<open>int\<close> is falsy when it is zero.\<close>

definition truthy :: "int \<Rightarrow> bool" where
  "truthy k \<longleftrightarrow> k \<noteq> 0"

subsection \<open>Resolving a program against the paths\<close>

text \<open>
  The module \<^verbatim>\<open>re\<close> is a parameter: \<^verbatim>\<open>re.compile\<close> gives, for an expression, the
  compiled pattern with its methods \<^verbatim>\<open>fullmatch\<close> (the whole string matches) and
  \<^verbatim>\<open>search\<close> (some part of the string matches), or nothing when the expression is
  malformed and \<^verbatim>\<open>re.error\<close> is raised.
\<close>

record pattern =
  fullmatch :: "string \<Rightarrow> bool"
  search :: "string \<Rightarrow> bool"

type_synonym re_compile = "string \<Rightarrow> pattern option"

text \<open>\<^verbatim>\<open>[re.compile(exp) for exp in filt.exclude]\<close>\<close>

definition compile_all :: "re_compile \<Rightarrow> string list \<Rightarrow> py_exception + pattern list" where
  "compile_all re exps =
     (case those (map re exps) of None \<Rightarrow> Inl ReError | Some ps \<Rightarrow> Inr ps)"

text \<open>The generator expression for \<^verbatim>\<open>filtered_paths\<close> in \<^verbatim>\<open>_map_checks_to_paths\<close>.\<close>

definition filtered_paths :: "PathFilter \<Rightarrow> pattern list \<Rightarrow> path list \<Rightarrow> path list" where
  "filtered_paths filt excl pths =
     filter (\<lambda>p. list_ex (\<lambda>e. suffix e (str p)) (endswith filt)
                 \<and> \<not> list_ex (\<lambda>exp. fullmatch exp (str p)) excl) pths"

text \<open>
  The inner loop of \<^verbatim>\<open>_map_checks_to_paths\<close>. The dictionary \<^verbatim>\<open>checks_to_paths\<close> has
  \<^verbatim>\<open>_Check\<close> objects as keys, which are compared by identity.
\<close>

fun assign_checks ::
  "path list \<Rightarrow> Check list \<Rightarrow> (obj_id \<rightharpoonup> path list) \<Rightarrow> (obj_id \<rightharpoonup> path list)" where
  "assign_checks fp [] m = m"
| "assign_checks fp (c # cs) m =
     assign_checks fp cs (if fp \<noteq> [] \<or> always_run c then m(check_id c \<mapsto> fp) else m)"

fun map_checks_loop ::
  "re_compile \<Rightarrow> (PathFilter \<times> Check list) list \<Rightarrow> path list \<Rightarrow> (obj_id \<rightharpoonup> path list)
     \<Rightarrow> py_exception + (obj_id \<rightharpoonup> path list)" where
  "map_checks_loop re [] pths m = Inr m"
| "map_checks_loop re ((filt, checks) # items) pths m =
     (case compile_all re (exclude filt) of
        Inl e \<Rightarrow> Inl e
      | Inr excl \<Rightarrow>
          map_checks_loop re items pths (assign_checks (filtered_paths filt excl pths) checks m))"

text \<open>
  \<^verbatim>\<open>_map_checks_to_paths(filter_to_checks, paths)\<close>; the dictionary \<^verbatim>\<open>filter_to_checks\<close> is
  the list of its items in the order of insertion.
\<close>

definition map_checks_to_paths ::
  "re_compile \<Rightarrow> (PathFilter \<times> Check list) list \<Rightarrow> path list
     \<Rightarrow> py_exception + (obj_id \<rightharpoonup> path list)" where
  "map_checks_to_paths re filter_to_checks pths =
     map_checks_loop re filter_to_checks pths Map.empty"

text \<open>\<^verbatim>\<open>d[k].append(v)\<close> on a \<^verbatim>\<open>defaultdict(list)\<close>: a new key goes to the end.\<close>

fun dict_append :: "('k \<times> 'v list) list \<Rightarrow> 'k \<Rightarrow> 'v \<Rightarrow> ('k \<times> 'v list) list" where
  "dict_append [] k v = [(k, [v])]"
| "dict_append ((k', vs) # d) k v =
     (if k' = k then (k', vs @ [v]) # d else (k', vs) # dict_append d k v)"

text \<open>
  An entry of a program: a \<^verbatim>\<open>_Check\<close> (made by \<^verbatim>\<open>filter_paths\<close>) or any other callable.
\<close>

datatype entry = IsCheck Check | Plain callable

text \<open>\<^verbatim>\<open>c if isinstance(c, _Check) else _Check(c)\<close>, for the entry at position \<open>i\<close>.\<close>

fun wrap_entry :: "nat \<Rightarrow> entry \<Rightarrow> py_exception + Check" where
  "wrap_entry i (IsCheck c) = Inr c"
| "wrap_entry i (Plain f) = Check_init (Wrapper i) f PathFilter_default True"

text \<open>
  The list comprehension over the program, from position \<open>i\<close> on: the first entry that
  cannot be wrapped raises.
\<close>

fun wrap_from :: "nat \<Rightarrow> entry list \<Rightarrow> py_exception + Check list" where
  "wrap_from i [] = Inr []"
| "wrap_from i (c # program) =
     (case wrap_entry i c of
        Inl e \<Rightarrow> Inl e
      | Inr chk \<Rightarrow>
          (case wrap_from (Suc i) program of
             Inl e \<Rightarrow> Inl e
           | Inr checks \<Rightarrow> Inr (chk # checks)))"

definition wrap_program :: "entry list \<Rightarrow> py_exception + Check list" where
  "wrap_program program = wrap_from 0 program"

text \<open>\<^verbatim>\<open>_apply_filters(program, paths)\<close>\<close>

definition apply_filters ::
  "re_compile \<Rightarrow> entry list \<Rightarrow> path list \<Rightarrow> py_exception + (Check \<times> path list) list" where
  "apply_filters re program pths =
     (case wrap_program program of
        Inl e \<Rightarrow> Inl e
      | Inr checks \<Rightarrow>
          (let filter_to_checks = fold (\<lambda>c d. dict_append d (filter' c) c) checks []
           in case map_checks_to_paths re filter_to_checks pths of
                Inl e \<Rightarrow> Inl e
              | Inr check_to_paths \<Rightarrow>
                  Inr (List.map_filter
                         (\<lambda>c. map_option (\<lambda>ps. (c, ps)) (check_to_paths (check_id c)))
                         checks)))"

text \<open>\<^verbatim>\<open>Presubmit.run(full_program, keep_going)\<close>\<close>

definition run ::
  "Presubmit \<Rightarrow> re_compile \<Rightarrow> entry list \<Rightarrow> bool \<Rightarrow> world \<Rightarrow> (py_exception + bool) \<times> world" where
  "run self re full_program keep_going w =
     (case apply_filters re full_program (presubmit_paths self) of
        Inl e \<Rightarrow> (Inl e, w)
      | Inr program \<Rightarrow>
          (case execute_checks self program keep_going w of
             (Inl e, w') \<Rightarrow> (Inl e, w')
           | (Inr (passed, failed, skipped), w') \<Rightarrow>
               (Inr (\<not> truthy failed \<and> \<not> truthy skipped), w')))"

subsection \<open>The decorator\<close>

text \<open>An argument that is a \<^verbatim>\<open>str\<close> or an iterable of \<^verbatim>\<open>str\<close>.\<close>

datatype str_or_iterable = Str string | Iterable "string list"

definition make_tuple :: "str_or_iterable \<Rightarrow> string list" where
  "make_tuple v = (case v of Str s \<Rightarrow> [s] | Iterable xs \<Rightarrow> xs)"

text \<open>
  \<^verbatim>\<open>filter_paths(endswith, exclude, always_run)(function)\<close>; \<open>oid\<close> is the identity of the
  \<^verbatim>\<open>_Check\<close> that is constructed. The message of the \<^verbatim>\<open>TypeError\<close> is kept up to the
  name, which is read to build it.
\<close>

definition filter_paths ::
  "str_or_iterable \<Rightarrow> str_or_iterable \<Rightarrow> bool \<Rightarrow> obj_id \<Rightarrow> callable \<Rightarrow> py_exception + Check" where
  "filter_paths ew ex ar oid function =
     (if length (parameters function) \<noteq> 1
      then (case fn_name function of
              None \<Rightarrow> Inl AttributeError
            | Some nm \<Rightarrow>
                Inl (TypeError
                  (''Functions wrapped with @filter_paths must take exactly one argument: '' @ nm)))
      else Check_init oid function \<lparr>endswith = make_tuple ew, exclude = make_tuple ex\<rparr> ar)"

subsection \<open>Notions used to state the properties\<close>

text \<open>The check that \<^verbatim>\<open>_Check.__init__\<close> constructs for a callable with the name \<open>nm\<close>.\<close>

definition constructed :: "obj_id \<Rightarrow> callable \<Rightarrow> string \<Rightarrow> PathFilter \<Rightarrow> bool \<Rightarrow> Check" where
  "constructed oid f nm filt ar =
     \<lparr>check_id = oid, check = f, filter' = filt, always_run = ar, check_name = nm\<rparr>"

text \<open>
  For one entry of a resolved program: the context its check receives, the file of its log
  handler, the call that is recorded, the result of running it, and the world afterwards.
\<close>

definition check_context :: "Presubmit \<Rightarrow> path \<Rightarrow> Check \<times> path list \<Rightarrow> PresubmitContext" where
  "check_context self wd x =
     snd (presubmit_context self wd (name (fst x))
            (map (joinpath (presubmit_repository_root self)) (snd x)))"

definition check_log_file :: "Presubmit \<Rightarrow> path \<Rightarrow> Check \<times> path list \<Rightarrow> path" where
  "check_log_file self wd x =
     fst (presubmit_context self wd (name (fst x))
            (map (joinpath (presubmit_repository_root self)) (snd x)))"

definition check_result :: "Presubmit \<Rightarrow> path \<Rightarrow> Check \<times> path list \<Rightarrow> py_exception + Result" where
  "check_result self wd x = fst (call_function (fst x) (check_context self wd x))"

definition invocation :: "Presubmit \<Rightarrow> path \<Rightarrow> Check \<times> path list \<Rightarrow> string \<times> PresubmitContext" where
  "invocation self wd x = (name (fst x), check_context self wd x)"

definition after_check :: "Presubmit \<Rightarrow> Check \<times> path list \<Rightarrow> world \<Rightarrow> world" where
  "after_check self x w =
     w\<lparr>calls := calls w @ [invocation self (cwd w) x],
       files := (files w)(check_log_file self (cwd w) x \<mapsto>
                  snd (call_function (fst x) (check_context self (cwd w) x)))\<rparr>"

text \<open>A result after which the loop goes on to the next check.\<close>

definition continues :: "bool \<Rightarrow> py_exception + Result \<Rightarrow> bool" where
  "continues keep_going r \<longleftrightarrow> r = Inr PASS \<or> (r = Inr FAIL \<and> keep_going)"

definition count_result :: "Presubmit \<Rightarrow> path \<Rightarrow> Result \<Rightarrow> (Check \<times> path list) list \<Rightarrow> int" where
  "count_result self wd r xs = int (length (filter (\<lambda>x. check_result self wd x = Inr r) xs))"

text \<open>
  Resolving one filter on its own, as the contract \<open>resolve(filter, universe)\<close> of the
  specification has it, and resolving a list of checks one by one, without grouping.
\<close>

definition resolve :: "re_compile \<Rightarrow> PathFilter \<Rightarrow> path list \<Rightarrow> py_exception + path list" where
  "resolve re filt universe =
     (case compile_all re (exclude filt) of
        Inl e \<Rightarrow> Inl e
      | Inr excl \<Rightarrow> Inr (filtered_paths filt excl universe))"

fun resolve_each ::
  "re_compile \<Rightarrow> Check list \<Rightarrow> path list \<Rightarrow> py_exception + (Check \<times> path list) list" where
  "resolve_each re [] universe = Inr []"
| "resolve_each re (c # cs) universe =
     (case resolve re (filter' c) universe of
        Inl e \<Rightarrow> Inl e
      | Inr sub \<Rightarrow>
          (case resolve_each re cs universe of
             Inl e \<Rightarrow> Inl e
           | Inr rest \<Rightarrow> Inr (if sub \<noteq> [] \<or> always_run c then (c, sub) # rest else rest)))"

definition matched :: "re_compile \<Rightarrow> path list \<Rightarrow> Check \<Rightarrow> path list" where
  "matched re universe c =
     (case resolve re (filter' c) universe of Inl e \<Rightarrow> [] | Inr sub \<Rightarrow> sub)"

text \<open>
  Objects have one identity each: the \<^verbatim>\<open>_Check\<close> objects of a program carry identities of
  registered objects, and two of them with the same identity are the same object.
\<close>

definition registered :: "entry list \<Rightarrow> Check list" where
  "registered program =
     List.map_filter (\<lambda>e. case e of IsCheck c \<Rightarrow> Some c | Plain f \<Rightarrow> None) program"

definition distinct_objects :: "entry list \<Rightarrow> bool" where
  "distinct_objects program \<longleftrightarrow>
     list_all (\<lambda>c. case check_id c of Registered k \<Rightarrow> True | Wrapper i \<Rightarrow> False)
       (registered program)
     \<and> list_all (\<lambda>c. list_all (\<lambda>c'. check_id c = check_id c' \<longrightarrow> c = c') (registered program))
         (registered program)"

text \<open>The pairs of a key and a member of its list, in a dictionary of lists.\<close>

definition members :: "('k \<times> 'v list) list \<Rightarrow> ('k \<times> 'v) set" where
  "members d = {(k, v). \<exists>vs. (k, vs) \<in> set d \<and> v \<in> set vs}"

text \<open>
  The maximal runs of a string with respect to a class of characters, and the string with
  every run inside the class replaced by one underscore.
\<close>

function runs :: "(char \<Rightarrow> bool) \<Rightarrow> string \<Rightarrow> string list" where
  "runs cls [] = []"
| "runs cls (c # cs) =
     (c # takeWhile (\<lambda>d. cls d = cls c) cs) # runs cls (dropWhile (\<lambda>d. cls d = cls c) cs)"
  by pat_completeness auto
termination
  by (relation "measure (\<lambda>(cls, s). length s)")
     (auto simp: less_Suc_eq_le length_dropWhile_le)

definition collapse_runs :: "(char \<Rightarrow> bool) \<Rightarrow> string \<Rightarrow> string" where
  "collapse_runs cls s = concat (map (\<lambda>r. if cls (hd r) then ''_'' else r) (runs cls s))"

text \<open>
  The sanitization in the words of the specification: the runs that are collapsed are those
  of characters that are neither alphanumeric nor underscore.
\<close>

definition spec_sanitized_name :: "string \<Rightarrow> string" where
  "spec_sanitized_name nm =
     lower (collapse_runs (\<lambda>c. \<not> isalnum c \<and> c \<noteq> CHR ''_'') nm)"

subsection \<open>Examples\<close>

text \<open>
  A stand-in for \<^verbatim>\<open>re\<close> on expressions without metacharacters; a lone bracket is
  malformed.
\<close>

definition literal_re :: re_compile where
  "literal_re exp =
     (if exp = ''['' then None
      else Some \<lparr>fullmatch = (\<lambda>s. s = exp), search = (\<lambda>s. sublist exp s)\<rparr>)"

definition returning :: "string \<Rightarrow> callable" where
  "returning nm =
     \<lparr>fn_name = Some nm, parameters = [Positional False], body = (\<lambda>ctx. Returns)\<rparr>"

definition raising :: "string \<Rightarrow> py_exception \<Rightarrow> callable" where
  "raising nm e =
     \<lparr>fn_name = Some nm, parameters = [Positional False], body = (\<lambda>ctx. Raises e)\<rparr>"

definition no_argument :: "string \<Rightarrow> callable" where
  "no_argument nm = \<lparr>fn_name = Some nm, parameters = [], body = (\<lambda>ctx. Returns)\<rparr>"

definition rel :: "string list \<Rightarrow> path" where
  "rel ps = \<lparr>anchored = False, parts = ps\<rparr>"

definition root :: "string list \<Rightarrow> path" where
  "root ps = \<lparr>anchored = True, parts = ps\<rparr>"

definition presubmit0 :: Presubmit where
  "presubmit0 = \<lparr>presubmit_repository_root = root [''repo''],
                  presubmit_output_directory = root [''repo'', ''.presubmit''],
                  presubmit_paths = [rel [''a.h''], rel [''b.c''], rel [''c.H'']]\<rparr>"

definition world0 :: world where
  "world0 = \<lparr>cwd = root [''repo''], calls = [], files = Map.empty\<rparr>"

definition check_A :: Check where
  "check_A = constructed (Registered 0) (returning ''A'') ''A'' PathFilter_default True"

definition check_B :: Check where
  "check_B = constructed (Registered 1) (raising ''B'' (PresubmitFailure_init ''bad'' None)) ''B''
               PathFilter_default True"

definition check_C :: Check where
  "check_C = constructed (Registered 2) (returning ''C'') ''C'' PathFilter_default True"

definition check_K :: Check where
  "check_K = constructed (Registered 3) (raising ''K'' KeyboardInterrupt) ''K''
               PathFilter_default True"

definition check_Q :: Check where
  "check_Q = constructed (Registered 4) (raising ''Q'' (PresubmitFailure_init [] None)) ''Q''
               PathFilter_default True"

definition check_E :: Check where
  "check_E = constructed (Registered 5) (raising ''E'' (OtherException ''boom'')) ''E''
               PathFilter_default True"

definition ctx0 :: PresubmitContext where
  "ctx0 = \<lparr>repository_root = root [''repo''],
            output_directory = root [''repo'', ''.presubmit'', ''a''],
            paths = []\<rparr>"

definition program_ABC :: "(Check \<times> path list) list" where
  "program_ABC = [(check_A, [rel [''a.h'']]), (check_B, [rel [''a.h'']]), (check_C, [rel [''a.h'']])]"

definition program_AKC :: "(Check \<times> path list) list" where
  "program_AKC = [(check_A, [rel [''a.h'']]), (check_K, [rel [''a.h'']]), (check_C, [rel [''a.h'']])]"

definition full_ABC :: "entry list" where
  "full_ABC = [IsCheck check_A, IsCheck check_B, IsCheck check_C]"

definition full_AC :: "entry list" where
  "full_AC = [IsCheck check_A, IsCheck check_C]"

definition header_check :: Check where
  "header_check = constructed (Registered 6) (returning ''pragma_once'') ''pragma_once''
                    \<lparr>endswith = [''.h''], exclude = []\<rparr> False"

definition header_check_x :: Check where
  "header_check_x = constructed (Registered 7) (returning ''pragma_once'') ''pragma_once''
                      \<lparr>endswith = [''.h''], exclude = [''gen.h'']\<rparr> False"

definition always_check :: Check where
  "always_check = constructed (Registered 8) (returning ''always'') ''always''
                    \<lparr>endswith = [''.h''], exclude = []\<rparr> True"

definition full_HAA :: "entry list" where
  "full_HAA = [IsCheck header_check, IsCheck always_check, IsCheck check_A]"


definition check_M :: Check where
  "check_M = constructed (Registered 10) (returning ''My Check!!2'') ''My Check!!2''
               PathFilter_default True"

text \<open>
  A check that calls \<^verbatim>\<open>sys.exit\<close>; a callable object without a name, as a
  \<^verbatim>\<open>functools.partial\<close> is; a function \<^verbatim>\<open>def f(ctx, verbose=False)\<close>; a function
  \<^verbatim>\<open>def f(*, ctx)\<close>.
\<close>

definition check_X :: Check where
  "check_X = constructed (Registered 11) (raising ''X'' (OtherBaseException ''SystemExit'')) ''X''
               PathFilter_default True"


definition with_default :: callable where
  "with_default = \<lparr>fn_name = Some ''f'', parameters = [Positional False, Positional True],
                    body = (\<lambda>ctx. Returns)\<rparr>"

definition keyword_only :: callable where
  "keyword_only = \<lparr>fn_name = Some ''f'', parameters = [KeywordOnly False],
                    body = (\<lambda>ctx. Returns)\<rparr>"

definition program_AXC :: "(Check \<times> path list) list" where
  "program_AXC = [(check_A, [rel [''a.h'']]), (check_X, [rel [''a.h'']]), (check_C, [rel [''a.h'']])]"

section \<open>Properties\<close>

subsection \<open>The loop of the runner\<close>

lemma cwd_after_check [simp]: "cwd (after_check self x w) = cwd w"
  by (simp add: after_check_def)

lemma calls_after_check [simp]:
  "calls (after_check self x w) = calls w @ [invocation self (cwd w) x]"
  by (simp add: after_check_def)

lemma dom_files_after_check [simp]:
  "dom (files (after_check self x w)) = insert (check_log_file self (cwd w) x) (dom (files w))"
  by (simp add: after_check_def)

lemma cwd_fold_after_check [simp]: "cwd (fold (after_check self) xs w) = cwd w"
  by (induction xs arbitrary: w) simp_all

lemma calls_fold_after_check:
  "calls (fold (after_check self) xs w) = calls w @ map (invocation self (cwd w)) xs"
  by (induction xs arbitrary: w) simp_all

lemma dom_files_fold_after_check:
  "dom (files (fold (after_check self) xs w)) =
     check_log_file self (cwd w) ` set xs \<union> dom (files w)"
  by (induction xs arbitrary: w) auto

text \<open>One iteration of the loop, by the result of the check.\<close>

lemma execute_loop_Cons:
  "execute_loop self keep_going n i (x # rest) passed failed w =
     (case check_result self (cwd w) x of
        Inl e \<Rightarrow> (Inl e, after_check self x w)
      | Inr PASS \<Rightarrow>
          execute_loop self keep_going n (Suc i) rest (passed + 1) failed (after_check self x w)
      | Inr CANCEL \<Rightarrow> (Inr (passed, failed), after_check self x w)
      | Inr FAIL \<Rightarrow>
          if \<not> keep_going then (Inr (passed, failed + 1), after_check self x w)
          else execute_loop self keep_going n (Suc i) rest passed (failed + 1)
                 (after_check self x w))"
  by (cases x)
     (simp add: check_result_def after_check_def invocation_def check_context_def
        check_log_file_def run_check_def Let_def split: prod.splits sum.splits Result.splits)

declare execute_loop.simps(2) [simp del]

text \<open>Over a prefix of checks that all let the loop continue, the loop only counts.\<close>

lemma execute_loop_continues:
  "\<forall>x\<in>set pre. continues keep_going (check_result self (cwd w) x) \<Longrightarrow>
   execute_loop self keep_going n i (pre @ rest) passed failed w =
     execute_loop self keep_going n (i + length pre) rest
       (passed + count_result self (cwd w) PASS pre)
       (failed + count_result self (cwd w) FAIL pre)
       (fold (after_check self) pre w)"
proof (induction pre arbitrary: i passed failed w)
  case Nil
  then show ?case by (simp add: count_result_def)
next
  case (Cons x pre)
  from Cons.prems have x: "continues keep_going (check_result self (cwd w) x)"
    and pre: "\<forall>y\<in>set pre. continues keep_going (check_result self (cwd (after_check self x w)) y)"
    by simp_all
  from x consider "check_result self (cwd w) x = Inr PASS"
    | "check_result self (cwd w) x = Inr FAIL" "keep_going"
    by (auto simp: continues_def)
  then show ?case
  proof cases
    case 1
    then show ?thesis
      using Cons.IH [OF pre, of "Suc i" "passed + 1" failed]
      by (simp add: execute_loop_Cons count_result_def add.assoc)
  next
    case 2
    then show ?thesis
      using Cons.IH [OF pre, of "Suc i" passed "failed + 1"]
      by (simp add: execute_loop_Cons count_result_def add.assoc)
  qed
qed

lemma count_result_continues:
  "\<forall>x\<in>set pre. continues keep_going (check_result self wd x) \<Longrightarrow>
   count_result self wd PASS pre + count_result self wd FAIL pre = int (length pre)"
  by (induction pre) (auto simp: count_result_def continues_def)

text \<open>The world after the loop is the world after a non-empty prefix of the checks.\<close>

lemma execute_loop_world:
  "\<exists>k. k \<le> length xs \<and> (xs \<noteq> [] \<longrightarrow> 0 < k) \<and>
     snd (execute_loop self keep_going n i xs passed failed w) =
       fold (after_check self) (take k xs) w"
proof (induction xs arbitrary: i passed failed w)
  case Nil
  then show ?case by simp
next
  case (Cons x xs)
  let ?w = "after_check self x w"
  define P where "P = (\<lambda>res :: (py_exception + int \<times> int) \<times> world.
     \<exists>k. k \<le> length (x # xs) \<and> (x # xs \<noteq> [] \<longrightarrow> 0 < k) \<and>
       snd res = fold (after_check self) (take k (x # xs)) w)"
  have stop: "\<forall>r. P (r, ?w)"
    unfolding P_def by (intro allI exI [of _ 1]) simp
  have go: "\<forall>p f. P (execute_loop self keep_going n (Suc i) xs p f ?w)"
  proof (intro allI)
    fix p f
    from Cons.IH [of "Suc i" p f ?w] obtain k where
      k: "k \<le> length xs"
        "snd (execute_loop self keep_going n (Suc i) xs p f ?w) =
           fold (after_check self) (take k xs) ?w"
      by blast
    show "P (execute_loop self keep_going n (Suc i) xs p f ?w)"
      unfolding P_def by (rule exI [of _ "Suc k"]) (use k in simp)
  qed
  have "P (execute_loop self keep_going n i (x # xs) passed failed w)"
    using stop go
    by (cases keep_going) (simp_all add: execute_loop_Cons split: sum.splits Result.splits)
  then show ?case
    by (simp only: P_def)
qed

lemma execute_checks_world:
  "snd (execute_checks self program keep_going w) =
     snd (execute_loop self keep_going (length program) 1 program 0 0 w)"
  by (simp add: execute_checks_def split: prod.splits sum.splits)

text \<open>The counters only grow, by no more than the number of checks left.\<close>

lemma execute_loop_counts:
  "execute_loop self keep_going n i xs passed failed w = (Inr (p, f), w') \<Longrightarrow>
   passed \<le> p \<and> failed \<le> f \<and> p + f \<le> passed + failed + int (length xs)"
proof (induction xs arbitrary: i passed failed w)
  case Nil
  then show ?case by simp
next
  case (Cons x xs)
  show ?case
  proof (cases "check_result self (cwd w) x")
    case (Inl e)
    with Cons.prems show ?thesis by (simp add: execute_loop_Cons)
  next
    case (Inr r)
    show ?thesis
    proof (cases r)
      case PASS
      with Inr Cons.prems Cons.IH [of "Suc i" "passed + 1" failed "after_check self x w"]
      show ?thesis by (simp add: execute_loop_Cons)
    next
      case FAIL
      with Inr Cons.prems Cons.IH [of "Suc i" passed "failed + 1" "after_check self x w"]
      show ?thesis by (cases keep_going) (simp_all add: execute_loop_Cons)
    next
      case CANCEL
      with Inr Cons.prems show ?thesis by (simp add: execute_loop_Cons)
    qed
  qed
qed

text \<open>The loop returns when no check lets an exception escape.\<close>

lemma execute_loop_returns:
  "\<forall>x\<in>set xs. \<forall>e. check_result self (cwd w) x \<noteq> Inl e \<Longrightarrow>
   \<exists>p f w'. execute_loop self keep_going n i xs passed failed w = (Inr (p, f), w')"
proof (induction xs arbitrary: i passed failed w)
  case Nil
  then show ?case by simp
next
  case (Cons x xs)
  from Cons.prems obtain r where r: "check_result self (cwd w) x = Inr r"
    by (cases "check_result self (cwd w) x") auto
  from Cons.prems have rest: "\<forall>y\<in>set xs. \<forall>e. check_result self (cwd (after_check self x w)) y \<noteq> Inl e"
    by simp
  show ?case
    using r Cons.IH [OF rest]
    by (cases r; cases keep_going) (simp_all add: execute_loop_Cons)
qed





subsection \<open>Grouping checks by filter\<close>

lemma members_Nil [simp]: "members [] = {}"
  by (simp add: members_def)

lemma members_Cons [simp]: "members ((k, vs) # d) = (\<lambda>v. (k, v)) ` set vs \<union> members d"
  by (auto simp: members_def)

lemma members_dict_append [simp]: "members (dict_append d k v) = insert (k, v) (members d)"
  by (induction d k v rule: dict_append.induct) auto

lemma members_fold_dict_append:
  "members (fold (\<lambda>c d. dict_append d (f c) c) cs d) = (\<lambda>c. (f c, c)) ` set cs \<union> members d"
  by (induction cs arbitrary: d) auto

lemma keys_dict_append: "fst ` set (dict_append d k v) = insert k (fst ` set d)"
  by (induction d k v rule: dict_append.induct) auto

lemma keys_fold_dict_append:
  "fst ` set (fold (\<lambda>c d. dict_append d (f c) c) cs d) = f ` set cs \<union> fst ` set d"
  by (induction cs arbitrary: d) (auto simp: keys_dict_append)

subsection \<open>Resolution\<close>

lemma compile_all_Inl: "compile_all re exps = Inl e \<Longrightarrow> e = ReError"
  by (auto simp: compile_all_def split: option.splits)

lemma those_map_Some:
  "those (map re exps) = Some ps \<Longrightarrow> list_all2 (\<lambda>exp p. re exp = Some p) exps ps"
proof (induction exps arbitrary: ps)
  case Nil
  then show ?case by simp
next
  case (Cons exp exps)
  then show ?case by (auto split: option.splits)
qed



lemma compile_all_Inr:
  "compile_all re exps = Inr ps \<Longrightarrow> list_all2 (\<lambda>exp p. re exp = Some p) exps ps"
  by (auto simp: compile_all_def split: option.splits dest: those_map_Some)

lemma compiled_matches:
  "list_all2 (\<lambda>exp p. re exp = Some p) exps ps \<Longrightarrow>
   (\<exists>m\<in>set ps. fullmatch m s) \<longleftrightarrow>
     (\<exists>exp\<in>set exps. \<exists>m. re exp = Some m \<and> fullmatch m s)"
  by (induction rule: list_all2_induct) auto

lemma resolve_Inl: "resolve re f universe = Inl e \<longleftrightarrow> compile_all re (exclude f) = Inl e"
  by (simp add: resolve_def split: sum.splits)

lemma resolve_default: "resolve re PathFilter_default universe = Inr universe"
  by (simp add: resolve_def compile_all_def PathFilter_default_def filtered_paths_def)

text \<open>Which paths a filter keeps, once its patterns are compiled.\<close>

lemma resolve_member:
  assumes "resolve re filt universe = Inr sub"
  shows "p \<in> set sub \<longleftrightarrow>
     p \<in> set universe \<and> (\<exists>e\<in>set (endswith filt). suffix e (str p))
       \<and> \<not> (\<exists>exp\<in>set (exclude filt). \<exists>m. re exp = Some m \<and> fullmatch m (str p))"
proof -
  from assms obtain excl where excl: "compile_all re (exclude filt) = Inr excl"
    and sub: "sub = filtered_paths filt excl universe"
    by (auto simp: resolve_def split: sum.splits)
  have "(\<exists>m\<in>set excl. fullmatch m s) \<longleftrightarrow>
      (\<exists>exp\<in>set (exclude filt). \<exists>m. re exp = Some m \<and> fullmatch m s)" for s
    using compile_all_Inr [OF excl] by (rule compiled_matches)
  then show ?thesis
    by (simp add: sub filtered_paths_def list_ex_iff)
qed

lemma assign_checks_lookup:
  assumes "\<forall>c'\<in>set cs. check_id c' = check_id c \<longrightarrow> c' = c"
  shows "assign_checks fp cs m (check_id c) =
     (if c \<in> set cs \<and> (fp \<noteq> [] \<or> always_run c) then Some fp else m (check_id c))"
  using assms by (induction cs arbitrary: m) auto

lemma map_checks_loop_Inl:
  "map_checks_loop re d universe m = Inl e \<longleftrightarrow>
     e = ReError \<and> (\<exists>f\<in>fst ` set d. compile_all re (exclude f) = Inl ReError)"
proof (induction d arbitrary: m)
  case Nil
  then show ?case by simp
next
  case (Cons x d)
  obtain f cs where x: "x = (f, cs)" by (cases x)
  show ?case
    unfolding x using Cons.IH compile_all_Inl [of re "exclude f"]
    by (cases "compile_all re (exclude f)") auto
qed

lemma map_checks_loop_lookup:
  assumes S: "\<forall>c\<in>S. \<forall>c'\<in>S. check_id c = check_id c' \<longrightarrow> c = c'"
    and d: "\<forall>(f, c)\<in>members d. f = filter' c \<and> c \<in> S"
    and r: "map_checks_loop re d universe m = Inr m'"
    and c: "c \<in> S"
  shows "m' (check_id c) =
     (if (filter' c, c) \<in> members d \<and> (matched re universe c \<noteq> [] \<or> always_run c)
      then Some (matched re universe c) else m (check_id c))"
  using d r
proof (induction d arbitrary: m)
  case Nil
  then show ?case by simp
next
  case (Cons x d)
  obtain f cs where x: "x = (f, cs)" by (cases x)
  from Cons.prems(2) obtain excl where excl: "compile_all re (exclude f) = Inr excl"
    and rest: "map_checks_loop re d universe
                 (assign_checks (filtered_paths f excl universe) cs m) = Inr m'"
    unfolding x by (auto split: sum.splits)
  from Cons.prems(1) have cs: "\<forall>c'\<in>set cs. f = filter' c' \<and> c' \<in> S"
    and d: "\<forall>(f, c)\<in>members d. f = filter' c \<and> c \<in> S"
    unfolding x by auto
  have uniq: "\<forall>c'\<in>set cs. check_id c' = check_id c \<longrightarrow> c' = c"
    using S cs c by blast
  have fp: "matched re universe c = filtered_paths f excl universe" if "c \<in> set cs"
    using that cs excl by (auto simp: matched_def resolve_def)
  show ?case
    unfolding x
    using Cons.IH [OF d rest]
      assign_checks_lookup [OF uniq, of "filtered_paths f excl universe" m] fp cs
    by auto
qed

lemma resolve_each_Inl:
  "resolve_each re cs universe = Inl e \<longleftrightarrow>
     e = ReError \<and> (\<exists>c\<in>set cs. resolve re (filter' c) universe = Inl ReError)"
proof (induction cs)
  case Nil
  then show ?case by simp
next
  case (Cons c cs)
  have only: "resolve re (filter' c) universe = Inl e' \<Longrightarrow> e' = ReError" for e'
    by (auto simp: resolve_Inl dest: compile_all_Inl)
  show ?case
    using Cons.IH only
    by (cases "resolve re (filter' c) universe"; cases "resolve_each re cs universe") auto
qed

lemma resolve_each_Inr:
  "resolve_each re cs universe = Inr resolved \<Longrightarrow>
   resolved = map (\<lambda>c. (c, matched re universe c))
                (filter (\<lambda>c. matched re universe c \<noteq> [] \<or> always_run c) cs)
   \<and> (\<forall>c\<in>set cs. resolve re (filter' c) universe = Inr (matched re universe c))"
proof (induction cs arbitrary: resolved)
  case Nil
  then show ?case by simp
next
  case (Cons c cs)
  from Cons.prems obtain sub rest where sub: "resolve re (filter' c) universe = Inr sub"
    and rest: "resolve_each re cs universe = Inr rest"
    and res: "resolved = (if sub \<noteq> [] \<or> always_run c then (c, sub) # rest else rest)"
    by (auto split: sum.splits)
  from sub have "matched re universe c = sub"
    by (simp add: matched_def)
  with Cons.IH [OF rest] sub res show ?case
    by auto
qed

lemma map_filter_resolve_each:
  assumes "\<forall>c\<in>set cs. m (check_id c) =
      (if matched re universe c \<noteq> [] \<or> always_run c then Some (matched re universe c) else None)"
    and "\<forall>c\<in>set cs. \<exists>sub. resolve re (filter' c) universe = Inr sub"
  shows "resolve_each re cs universe =
     Inr (List.map_filter (\<lambda>c. map_option (\<lambda>ps. (c, ps)) (m (check_id c))) cs)"
  using assms
proof (induction cs)
  case Nil
  then show ?case by (simp add: map_filter_simps)
next
  case (Cons c cs)
  then show ?case
    by (auto simp: map_filter_simps matched_def)
qed

lemma Check_init_Inr:
  "Check_init oid f filt ar = Inr c \<longleftrightarrow>
     (\<exists>nm. fn_name f = Some nm \<and> c = constructed oid f nm filt ar)"
  by (auto simp: Check_init_def constructed_def split: option.splits)

lemma Check_init_Inl: "Check_init oid f filt ar = Inl e \<longleftrightarrow> fn_name f = None \<and> e = AttributeError"
  by (auto simp: Check_init_def split: option.splits)

lemma wrap_from_Inr:
  "wrap_from i program = Inr checks \<Longrightarrow>
   length checks = length program
   \<and> (\<forall>j<length program. wrap_entry (i + j) (program ! j) = Inr (checks ! j))"
proof (induction program arbitrary: i checks)
  case Nil
  then show ?case by simp
next
  case (Cons e program)
  from Cons.prems obtain c cs where c: "wrap_entry i e = Inr c"
    and cs: "wrap_from (Suc i) program = Inr cs" and checks: "checks = c # cs"
    by (auto split: sum.splits)
  from Cons.IH [OF cs] have len: "length cs = length program"
    and nth: "\<forall>j<length program. wrap_entry (Suc i + j) (program ! j) = Inr (cs ! j)"
    by simp_all
  have "wrap_entry (i + j) ((e # program) ! j) = Inr (checks ! j)"
    if "j < length (e # program)" for j
    using that c nth checks by (cases j) simp_all
  with len checks show ?case by simp
qed


lemma set_wrap_program:
  assumes "wrap_program program = Inr checks"
  shows "c \<in> set checks \<longleftrightarrow> (\<exists>i<length program. wrap_entry i (program ! i) = Inr c)"
  using wrap_from_Inr [OF assms [unfolded wrap_program_def]]
  by (auto simp: in_set_conv_nth)


lemma set_registered: "set (registered program) = {c. IsCheck c \<in> set program}"
proof (induction program)
  case Nil
  then show ?case by (simp add: registered_def map_filter_simps)
next
  case (Cons e program)
  then show ?case by (cases e) (auto simp: registered_def map_filter_simps)
qed

text \<open>After wrapping, the checks of a program still have one identity each.\<close>

lemma distinct_objects_wrap:
  assumes "distinct_objects program" and "wrap_program program = Inr checks"
    and "c \<in> set checks" and "c' \<in> set checks"
    and "check_id c = check_id c'"
  shows "c = c'"
proof -
  from assms(3,4) obtain i j where i: "i < length program" "wrap_entry i (program ! i) = Inr c"
    and j: "j < length program" "wrap_entry j (program ! j) = Inr c'"
    by (auto simp: set_wrap_program [OF assms(2)])
  have reg: "\<exists>k. check_id a = Registered k" if "IsCheck a \<in> set program" for a
    using assms(1) that
    by (cases "check_id a") (auto simp: distinct_objects_def list_all_iff set_registered)
  have uniq: "a = b"
    if "IsCheck a \<in> set program" "IsCheck b \<in> set program" "check_id a = check_id b" for a b
    using assms(1) that by (auto simp: distinct_objects_def list_all_iff set_registered)
  show ?thesis
  proof (cases "program ! i")
    case (IsCheck a)
    with i have a: "IsCheck a \<in> set program" "c = a" by (auto simp: in_set_conv_nth)
    show ?thesis
    proof (cases "program ! j")
      case (IsCheck b)
      with j have "IsCheck b \<in> set program" "c' = b" by (auto simp: in_set_conv_nth)
      with a uniq assms(5) show ?thesis by blast
    next
      case (Plain g)
      with j have "check_id c' = Wrapper j" by (auto simp: Check_init_Inr constructed_def)
      with reg [OF a(1)] a(2) assms(5) show ?thesis by auto
    qed
  next
    case (Plain f)
    with i have c: "check_id c = Wrapper i" by (auto simp: Check_init_Inr constructed_def)
    show ?thesis
    proof (cases "program ! j")
      case (IsCheck b)
      with j have b: "IsCheck b \<in> set program" "c' = b" by (auto simp: in_set_conv_nth)
      with reg [OF b(1)] c assms(5) show ?thesis by auto
    next
      case (Plain g)
      with j have "check_id c' = Wrapper j" by (auto simp: Check_init_Inr constructed_def)
      with c assms(5) have "i = j" by simp
      with i j show ?thesis by simp
    qed
  qed
qed

text \<open>
  Grouping the checks by filter and resolving each group once gives what resolving the
  checks one by one gives.
\<close>

lemma apply_filters_resolve_each:
  assumes wf: "distinct_objects program"
  shows "apply_filters re program universe =
     (case wrap_program program of
        Inl e \<Rightarrow> Inl e
      | Inr checks \<Rightarrow> resolve_each re checks universe)"
proof (cases "wrap_program program")
  case (Inl e)
  then show ?thesis by (simp add: apply_filters_def)
next
  case checks: (Inr checks)
  let ?d = "fold (\<lambda>c d. dict_append d (filter' c) c) checks []"
  have mem: "members ?d = (\<lambda>c. (filter' c, c)) ` set checks"
    by (simp add: members_fold_dict_append)
  have keys: "fst ` set ?d = filter' ` set checks"
    by (simp add: keys_fold_dict_append)
  have "(case map_checks_to_paths re ?d universe of
           Inl e \<Rightarrow> Inl e
         | Inr check_to_paths \<Rightarrow>
             Inr (List.map_filter
                    (\<lambda>c. map_option (\<lambda>ps. (c, ps)) (check_to_paths (check_id c))) checks))
        = resolve_each re checks universe"
  proof (cases "map_checks_to_paths re ?d universe")
    case (Inl e)
    then have "e = ReError"
      and "\<exists>c\<in>set checks. resolve re (filter' c) universe = Inl ReError"
      unfolding map_checks_to_paths_def map_checks_loop_Inl keys
      by (auto simp: resolve_Inl)
    then have "resolve_each re checks universe = Inl ReError"
      by (simp add: resolve_each_Inl)
    with Inl \<open>e = ReError\<close> show ?thesis
      by simp
  next
    case (Inr m)
    have S: "\<forall>c\<in>set checks. \<forall>c'\<in>set checks. check_id c = check_id c' \<longrightarrow> c = c'"
      using distinct_objects_wrap [OF wf checks] by blast
    have d: "\<forall>(f, c)\<in>members ?d. f = filter' c \<and> c \<in> set checks"
      unfolding mem by auto
    have lookup: "\<forall>c\<in>set checks. m (check_id c) =
      (if matched re universe c \<noteq> [] \<or> always_run c then Some (matched re universe c)
       else None)"
    proof
      fix c assume c: "c \<in> set checks"
      from map_checks_loop_lookup [OF S d Inr [unfolded map_checks_to_paths_def] c] c
      show "m (check_id c) =
        (if matched re universe c \<noteq> [] \<or> always_run c then Some (matched re universe c)
         else None)"
        unfolding mem by simp
    qed
    have ok: "\<forall>c\<in>set checks. \<exists>sub. resolve re (filter' c) universe = Inr sub"
    proof
      fix c assume c: "c \<in> set checks"
      show "\<exists>sub. resolve re (filter' c) universe = Inr sub"
      proof (cases "resolve re (filter' c) universe")
        case (Inl e)
        then have "compile_all re (exclude (filter' c)) = Inl ReError"
          by (auto simp: resolve_Inl dest: compile_all_Inl)
        with c keys have "map_checks_loop re ?d universe Map.empty = Inl ReError"
          unfolding map_checks_loop_Inl by blast
        with Inr show ?thesis by (simp add: map_checks_to_paths_def)
      next
        case (Inr sub)
        then show ?thesis by blast
      qed
    qed
    show ?thesis
      using Inr map_filter_resolve_each [OF lookup ok]
      by simp
  qed
  with checks show ?thesis
    by (simp add: apply_filters_def)
qed

text \<open>The resolved program, when resolving returns.\<close>

lemma resolved_entry:
  assumes "distinct_objects program"
    and "apply_filters re program universe = Inr resolved"
  shows "\<exists>checks. wrap_program program = Inr checks
     \<and> resolved = map (\<lambda>c. (c, matched re universe c))
           (filter (\<lambda>c. matched re universe c \<noteq> [] \<or> always_run c) checks)
     \<and> (\<forall>c\<in>set checks. resolve re (filter' c) universe = Inr (matched re universe c))"
proof (cases "wrap_program program")
  case (Inl e)
  with assms show ?thesis
    by (simp add: apply_filters_resolve_each)
next
  case (Inr checks)
  with assms have "resolve_each re checks universe = Inr resolved"
    by (simp add: apply_filters_resolve_each)
  from resolve_each_Inr [OF this] Inr show ?thesis
    by simp
qed

lemma resolved_pair:
  assumes "distinct_objects program"
    and "apply_filters re program universe = Inr resolved"
    and "(c, sub) \<in> set resolved"
  shows "resolve re (filter' c) universe = Inr sub" and "sub = matched re universe c"
  using resolved_entry [OF assms(1,2)] assms(3) by auto

subsection \<open>Sanitized names\<close>

lemma re_sub_class_plus_copy:
  "re_sub_class_plus cls repl s =
     takeWhile (\<lambda>d. \<not> cls d) s @ re_sub_class_plus cls repl (dropWhile (\<lambda>d. \<not> cls d) s)"
  by (induction s) auto

text \<open>Substituting for the pattern collapses the maximal runs of the class.\<close>

lemma re_sub_class_plus_collapse: "re_sub_class_plus cls ''_'' s = collapse_runs cls s"
proof (induction cls s rule: runs.induct)
  case (1 cls)
  then show ?case by (simp add: collapse_runs_def)
next
  case (2 cls c cs)
  show ?case
  proof (cases "cls c")
    case True
    then have same: "(\<lambda>d. cls d = cls c) = cls" by auto
    from 2 have "re_sub_class_plus cls ''_'' (dropWhile cls cs) = collapse_runs cls (dropWhile cls cs)"
      by (simp add: same)
    with True show ?thesis
      by (simp add: collapse_runs_def same)
  next
    case False
    then have same: "(\<lambda>d. cls d = cls c) = (\<lambda>d. \<not> cls d)" by auto
    from 2 have IH: "re_sub_class_plus cls ''_'' (dropWhile (\<lambda>d. \<not> cls d) cs) =
        collapse_runs cls (dropWhile (\<lambda>d. \<not> cls d) cs)"
      by (simp add: same)
    have "re_sub_class_plus cls ''_'' (c # cs) = c # re_sub_class_plus cls ''_'' cs"
      using False by simp
    also have "\<dots> = c # takeWhile (\<lambda>d. \<not> cls d) cs @
        re_sub_class_plus cls ''_'' (dropWhile (\<lambda>d. \<not> cls d) cs)"
      using re_sub_class_plus_copy [of cls "''_''" cs] by simp
    also have "\<dots> = collapse_runs cls (c # cs)"
      using False IH by (simp add: collapse_runs_def same)
    finally show ?thesis .
  qed
qed

lemma isalnum_underscore: "\<not> isalnum CHR ''_''"
  by (simp add: isalnum_def)

lemma nonword_or_underscore_iff: "nonword_or_underscore c \<longleftrightarrow> \<not> isalnum c"
  using isalnum_underscore by (auto simp: nonword_or_underscore_def)

lemma sanitized_name_collapse:
  "sanitized_name nm = lower (collapse_runs (\<lambda>c. \<not> isalnum c) nm)"
proof -
  have "nonword_or_underscore = (\<lambda>c. \<not> isalnum c)"
    by (rule ext) (simp add: nonword_or_underscore_iff)
  then show ?thesis
    by (simp add: sanitized_name_def re_sub_class_plus_collapse)
qed

lemma set_re_sub_class_plus:
  "set (re_sub_class_plus cls ''_'' s) \<subseteq> insert CHR ''_'' {c \<in> set s. \<not> cls c}"
proof (induction cls "''_''" s rule: re_sub_class_plus.induct)
  case (1 cls)
  then show ?case by simp
next
  case (2 cls c cs)
  then show ?case
    by (auto dest: set_dropWhileD)
qed

lemma isalnum_lower_char: "isalnum c \<Longrightarrow> isalnum (lower_char c)"
  by (auto simp: isalnum_def lower_char_def Let_def)

lemma sanitized_name_chars:
  assumes "c \<in> set (sanitized_name nm)"
  shows "c = CHR ''_'' \<or> isalnum c"
proof -
  from assms obtain d where d: "d \<in> set (re_sub_class_plus nonword_or_underscore ''_'' nm)"
    and c: "c = lower_char d"
    by (auto simp: sanitized_name_def lower_def)
  from d set_re_sub_class_plus [of nonword_or_underscore nm]
  have "d = CHR ''_'' \<or> isalnum d"
    by (auto simp: nonword_or_underscore_iff)
  then show ?thesis
    unfolding c
  proof
    assume "d = CHR ''_''"
    then show "lower_char d = CHR ''_'' \<or> isalnum (lower_char d)"
      by (simp add: lower_char_def)
  next
    assume "isalnum d"
    then show "lower_char d = CHR ''_'' \<or> isalnum (lower_char d)"
      by (simp add: isalnum_lower_char)
  qed
qed

lemma sanitized_name_no_separator:
  "CHR ''/'' \<notin> set (sanitized_name nm) \<and> CHR ''.'' \<notin> set (sanitized_name nm)"
proof -
  have "\<not> isalnum CHR ''/''" and "\<not> isalnum CHR ''.''"
    by (simp_all add: isalnum_def)
  then show ?thesis
    using sanitized_name_chars [of "CHR ''/''" nm] sanitized_name_chars [of "CHR ''.''" nm]
    by auto
qed

subsection \<open>The examples evaluated\<close>

lemma call_examples:
  "call (check check_A) ctx = Returns"
  "call (check check_B) ctx = Raises (PresubmitFailure ''bad'')"
  "call (check check_C) ctx = Returns"
  "call (check check_K) ctx = Raises KeyboardInterrupt"
  "call (check check_Q) ctx = Raises (PresubmitFailure [])"
  "call (check check_E) ctx = Raises (OtherException ''boom'')"
  "call (check check_X) ctx = Raises (OtherBaseException ''SystemExit'')"
  by (simp_all add: call_def check_A_def check_B_def check_C_def check_K_def check_Q_def
      check_E_def check_X_def constructed_def returning_def raising_def binds_one_positional_def
      PresubmitFailure_init_def)

lemma result_examples:
  "check_result self wd (check_A, ps) = Inr PASS"
  "check_result self wd (check_B, ps) = Inr FAIL"
  "check_result self wd (check_C, ps) = Inr PASS"
  "check_result self wd (check_K, ps) = Inr CANCEL"
  "check_result self wd (check_X, ps) = Inl (OtherBaseException ''SystemExit'')"
  by (simp_all add: check_result_def call_function_def call_examples)

lemma name_examples:
  "name check_A = ''A''" "name check_B = ''B''" "name check_C = ''C''" "name check_K = ''K''"
  "name check_X = ''X''" "name always_check = ''always''"
  by (simp_all add: name_def check_A_def check_B_def check_C_def check_K_def check_X_def
      always_check_def constructed_def)

lemma check_examples:
  "check_id check_A = Registered 0" "check_id check_B = Registered 1"
  "check_id check_C = Registered 2" "check_id check_K = Registered 3"
  "filter' check_A = PathFilter_default" "filter' check_B = PathFilter_default"
  "filter' check_C = PathFilter_default" "filter' check_K = PathFilter_default"
  "always_run check_A" "always_run check_B" "always_run check_C" "always_run check_K"
  by (simp_all add: check_A_def check_B_def check_C_def check_K_def constructed_def)

lemma distinct_objects_examples:
  "distinct_objects full_ABC" "distinct_objects full_AC"
  by (simp_all add: distinct_objects_def full_ABC_def full_AC_def registered_def
      map_filter_simps check_examples)

lemma apply_filters_examples:
  "apply_filters re full_ABC universe =
     Inr [(check_A, universe), (check_B, universe), (check_C, universe)]"
  "apply_filters re full_AC universe = Inr [(check_A, universe), (check_C, universe)]"
  by (simp_all add: apply_filters_resolve_each distinct_objects_examples)
     (simp_all add: full_ABC_def full_AC_def wrap_program_def check_examples resolve_default)

lemma str_rel_single [simp]: "str (rel [s]) = s"
  by (simp add: str_def rel_def)

lemma str_rel_pair [simp]: "str (rel [s, t]) = s @ ''/'' @ t"
  by (simp add: str_def rel_def)

lemma header_examples:
  "apply_filters literal_re [IsCheck header_check] [rel [''a.h''], rel [''b.c''], rel [''c.H'']]
     = Inr [(header_check, [rel [''a.h'']])]"
  "apply_filters literal_re [IsCheck header_check_x]
       [rel [''a.h''], rel [''gen.h''], rel [''x'', ''gen.h'']]
     = Inr [(header_check_x, [rel [''a.h''], rel [''x'', ''gen.h'']])]"
  "distinct_objects [IsCheck header_check]"
  "distinct_objects [IsCheck header_check_x]"
proof -
  show d1: "distinct_objects [IsCheck header_check]"
    and d2: "distinct_objects [IsCheck header_check_x]"
    by (simp_all add: distinct_objects_def registered_def map_filter_simps header_check_def
        header_check_x_def constructed_def)
  show "apply_filters literal_re [IsCheck header_check]
      [rel [''a.h''], rel [''b.c''], rel [''c.H'']] = Inr [(header_check, [rel [''a.h'']])]"
    unfolding apply_filters_resolve_each [OF d1]
    by (simp add: wrap_program_def resolve_def compile_all_def filtered_paths_def
        header_check_def constructed_def suffix_to_prefix)
  show "apply_filters literal_re [IsCheck header_check_x]
      [rel [''a.h''], rel [''gen.h''], rel [''x'', ''gen.h'']]
      = Inr [(header_check_x, [rel [''a.h''], rel [''x'', ''gen.h'']])]"
    unfolding apply_filters_resolve_each [OF d2]
    by (simp add: wrap_program_def resolve_def compile_all_def filtered_paths_def
        header_check_x_def constructed_def suffix_to_prefix literal_re_def)
qed


lemma full_HAA_examples:
  "distinct_objects full_HAA"
  "wrap_program full_HAA = Inr [header_check, always_check, check_A]"
  "apply_filters literal_re full_HAA [rel [''b.c'']] =
     Inr [(always_check, []), (check_A, [rel [''b.c'']])]"
proof -
  show d: "distinct_objects full_HAA"
    by (simp add: distinct_objects_def full_HAA_def registered_def map_filter_simps
        header_check_def always_check_def check_A_def constructed_def)
  show w: "wrap_program full_HAA = Inr [header_check, always_check, check_A]"
    by (simp add: full_HAA_def wrap_program_def)
  have ar: "\<not> always_run header_check" "always_run always_check" "always_run check_A"
    by (simp_all add: header_check_def always_check_def check_A_def constructed_def)
  have r: "resolve literal_re (filter' header_check) [rel [''b.c'']] = Inr []"
    "resolve literal_re (filter' always_check) [rel [''b.c'']] = Inr []"
    "resolve literal_re (filter' check_A) [rel [''b.c'']] = Inr [rel [''b.c'']]"
    by (simp_all add: resolve_def compile_all_def filtered_paths_def
        header_check_def always_check_def check_A_def constructed_def PathFilter_default_def
        suffix_to_prefix)
  show "apply_filters literal_re full_HAA [rel [''b.c'']] =
     Inr [(always_check, []), (check_A, [rel [''b.c'']])]"
    unfolding apply_filters_resolve_each [OF d] w
    by (simp add: r ar)
qed

lemma full_HAA_resolved:
  "resolve_each literal_re [header_check, always_check, check_A] [rel [''a.h''], rel [''b.c'']] =
     Inr [(header_check, [rel [''a.h'']]), (always_check, [rel [''a.h'']]),
          (check_A, [rel [''a.h''], rel [''b.c'']])]"
proof -
  have r: "resolve literal_re (filter' header_check) [rel [''a.h''], rel [''b.c'']]
             = Inr [rel [''a.h'']]"
    "resolve literal_re (filter' always_check) [rel [''a.h''], rel [''b.c'']]
             = Inr [rel [''a.h'']]"
    "resolve literal_re (filter' check_A) [rel [''a.h''], rel [''b.c'']]
             = Inr [rel [''a.h''], rel [''b.c'']]"
    by (simp_all add: resolve_def compile_all_def filtered_paths_def
        header_check_def always_check_def check_A_def constructed_def PathFilter_default_def
        suffix_to_prefix)
  have ar: "\<not> always_run header_check" "always_run always_check" "always_run check_A"
    by (simp_all add: header_check_def always_check_def check_A_def constructed_def)
  show ?thesis
    by (simp add: r ar)
qed

lemma check_log_file_eq:
  "check_log_file self wd x =
     absolute wd (joinpath (joinpath (presubmit_output_directory self)
                              (segment (sanitized_name (name (fst x)))))
                           (segment ''step.log''))"
  by (simp add: check_log_file_def presubmit_context_def Let_def)

lemma output_directory_check_context:
  "output_directory (check_context self wd x) =
     absolute wd (joinpath (presubmit_output_directory self)
                    (segment (sanitized_name (name (fst x)))))"
  by (simp add: check_context_def presubmit_context_def Let_def)

lemma sanitized_example: "sanitized_name ''My Check!!2'' = ''my_check_2''"
  by code_simp

text \<open>A name with a letter beyond ASCII: the capital E with acute, 201, becomes the small one.\<close>

lemma sanitized_latin_example:
  "sanitized_name (''Caf'' @ [CHR 0xC9] @ '' 1'') = ''caf'' @ [CHR 0xE9] @ ''_1''"
  by code_simp

lemma filter_paths_nameless:
  "fn_name function = None \<Longrightarrow> filter_paths ew ex ar oid function = Inl AttributeError"
  by (simp add: filter_paths_def Check_init_def)

section \<open>The claims\<close>

text \<open>
  C1. Let the checks before \<open>b\<close> all let the loop continue and let \<open>b\<close> fail. Without
  keep-going the run stops at \<open>b\<close>: the checks after it are not called, the results so far
  are counted, and the checks after \<open>b\<close> are the skipped ones. With keep-going the run goes
  on with the checks after \<open>b\<close>, the counters keeping what was counted. When there are
  checks after \<open>b\<close>, the calls end with the call of \<open>b\<close> exactly when keep-going is off.
\<close>

theorem fail_halts_unless_keep_going:
  assumes pre: "\<forall>x\<in>set pre. continues keep_going (check_result self (cwd w) x)"
    and b: "check_result self (cwd w) b = Inr FAIL"
  shows
    "(\<not> keep_going \<longrightarrow>
        execute_checks self (pre @ b # post) keep_going w =
          (Inr (int (length pre), 1, int (length post)),
           fold (after_check self) (pre @ [b]) w))
     \<and> (keep_going \<longrightarrow>
        execute_checks self (pre @ b # post) keep_going w =
          (case execute_loop self keep_going (length (pre @ b # post)) (length pre + 2) post
                  (count_result self (cwd w) PASS pre)
                  (count_result self (cwd w) FAIL pre + 1)
                  (fold (after_check self) (pre @ [b]) w) of
             (Inl e, w') \<Rightarrow> (Inl e, w')
           | (Inr (passed, failed), w') \<Rightarrow>
               (Inr (passed, failed, int (length (pre @ b # post)) - passed - failed), w')))
     \<and> (post \<noteq> [] \<longrightarrow>
         (calls (snd (execute_checks self (pre @ b # post) keep_going w)) =
            calls w @ map (invocation self (cwd w)) (pre @ [b])
          \<longleftrightarrow> \<not> keep_going))"
proof -
  let ?n = "length (pre @ b # post)"
  let ?wb = "fold (after_check self) (pre @ [b]) w"
  let ?P = "count_result self (cwd w) PASS pre"
  let ?F = "count_result self (cwd w) FAIL pre"
  have loop: "execute_loop self keep_going ?n 1 (pre @ b # post) 0 0 w =
      (if \<not> keep_going then (Inr (?P, ?F + 1), ?wb)
       else execute_loop self keep_going ?n (length pre + 2) post ?P (?F + 1) ?wb)"
    using b by (simp add: execute_loop_continues [OF pre] execute_loop_Cons)
  have counts: "?P = int (length pre) \<and> ?F = 0" if "\<not> keep_going"
  proof -
    from pre that have "\<forall>x\<in>set pre. check_result self (cwd w) x = Inr PASS"
      by (simp add: continues_def)
    then show ?thesis
      by (simp add: count_result_def)
  qed
  have halt: "execute_checks self (pre @ b # post) keep_going w =
      (Inr (int (length pre), 1, int (length post)), ?wb)" if "\<not> keep_going"
    using that counts [OF that] loop by (simp add: execute_checks_def)
  have go: "execute_checks self (pre @ b # post) keep_going w =
      (case execute_loop self keep_going ?n (length pre + 2) post ?P (?F + 1) ?wb of
         (Inl e, w') \<Rightarrow> (Inl e, w')
       | (Inr (passed, failed), w') \<Rightarrow> (Inr (passed, failed, int ?n - passed - failed), w'))"
    if keep_going
    using that loop by (simp add: execute_checks_def)
  have calls_iff: "calls (snd (execute_checks self (pre @ b # post) keep_going w)) =
      calls w @ map (invocation self (cwd w)) (pre @ [b]) \<longleftrightarrow> \<not> keep_going"
    if post: "post \<noteq> []"
  proof (cases keep_going)
    case False
    then show ?thesis
      using halt by (simp add: calls_fold_after_check)
  next
    case True
    let ?r = "execute_loop self keep_going ?n (length pre + 2) post ?P (?F + 1) ?wb"
    from execute_loop_world [of post self keep_going ?n "length pre + 2" ?P "?F + 1" ?wb] post
    obtain k where k: "0 < k" "k \<le> length post"
      "snd ?r = fold (after_check self) (take k post) ?wb"
      by blast
    have "snd (execute_checks self (pre @ b # post) keep_going w) = snd ?r"
      using loop True by (simp add: execute_checks_world)
    with k have "calls (snd (execute_checks self (pre @ b # post) keep_going w)) =
       (calls w @ map (invocation self (cwd w)) (pre @ [b]))
         @ map (invocation self (cwd w)) (take k post)"
      by (simp add: calls_fold_after_check)
    moreover from k post have "map (invocation self (cwd w)) (take k post) \<noteq> []"
      by (cases post) auto
    ultimately show ?thesis
      using True by simp
  qed
  show ?thesis
    using halt go calls_iff by blast
qed

theorem fail_halts_unless_keep_going_witness:
  "fst (execute_checks presubmit0 program_ABC False world0) = Inr (1, 1, 1)
   \<and> map fst (calls (snd (execute_checks presubmit0 program_ABC False world0))) = [''A'', ''B'']
   \<and> fst (execute_checks presubmit0 program_ABC True world0) = Inr (2, 1, 0)
   \<and> map fst (calls (snd (execute_checks presubmit0 program_ABC True world0)))
       = [''A'', ''B'', ''C'']"
proof -
  let ?ps = "[rel [''a.h'']]"
  have prog: "program_ABC = [(check_A, ?ps)] @ (check_B, ?ps) # [(check_C, ?ps)]"
    by (simp add: program_ABC_def)
  have pre: "\<forall>x\<in>set [(check_A, ?ps)]. continues kg (check_result presubmit0 (cwd world0) x)"
    for kg
    by (simp add: continues_def result_examples)
  have b: "check_result presubmit0 (cwd world0) (check_B, ?ps) = Inr FAIL"
    by (simp add: result_examples)
  have w0: "calls world0 = []"
    by (simp add: world0_def)
  have off: "execute_checks presubmit0 program_ABC False world0 =
      (Inr (1, 1, 1), fold (after_check presubmit0) [(check_A, ?ps), (check_B, ?ps)] world0)"
    using fail_halts_unless_keep_going
      [where keep_going = False and post = "[(check_C, ?ps)]", OF pre b]
    by (simp add: prog)
  have on: "execute_checks presubmit0 program_ABC True world0 =
      (Inr (2, 1, 0),
       fold (after_check presubmit0) [(check_A, ?ps), (check_B, ?ps), (check_C, ?ps)] world0)"
    using fail_halts_unless_keep_going
      [where keep_going = True and post = "[(check_C, ?ps)]", OF pre b]
    by (simp add: prog execute_loop_Cons result_examples count_result_def)
  show ?thesis
    unfolding off on
    by (simp add: invocation_def name_examples w0)
qed

text \<open>
  C2. Let the checks before \<open>b\<close> all let the loop continue and let \<open>b\<close> be cancelled.
  Whatever keep-going is, the run stops at \<open>b\<close>: the calls made are those of the checks up
  to \<open>b\<close>, the counters hold the results before \<open>b\<close>, and the skipped count is one, for
  \<open>b\<close>, plus the number of checks after \<open>b\<close>.
\<close>

theorem cancel_halts:
  assumes pre: "\<forall>x\<in>set pre. continues keep_going (check_result self (cwd w) x)"
    and b: "check_result self (cwd w) b = Inr CANCEL"
  shows
    "execute_checks self (pre @ b # post) keep_going w =
       (Inr (count_result self (cwd w) PASS pre,
             count_result self (cwd w) FAIL pre,
             1 + int (length post)),
        fold (after_check self) (pre @ [b]) w)
     \<and> calls (fold (after_check self) (pre @ [b]) w) =
         calls w @ map (invocation self (cwd w)) (pre @ [b])
     \<and> count_result self (cwd w) PASS pre + count_result self (cwd w) FAIL pre
         = int (length pre)"
proof -
  have sum: "count_result self (cwd w) PASS pre + count_result self (cwd w) FAIL pre
      = int (length pre)"
    using pre by (rule count_result_continues)
  then have "int (length (pre @ b # post)) - count_result self (cwd w) PASS pre
      - count_result self (cwd w) FAIL pre = 1 + int (length post)"
    by simp
  then show ?thesis
    using b sum
    by (simp add: execute_checks_def execute_loop_continues [OF pre] execute_loop_Cons
        calls_fold_after_check)
qed

theorem cancel_halts_witness:
  "fst (execute_checks presubmit0 program_AKC False world0) = Inr (1, 0, 2)
   \<and> map fst (calls (snd (execute_checks presubmit0 program_AKC False world0))) = [''A'', ''K'']
   \<and> fst (execute_checks presubmit0 program_AKC True world0) = Inr (1, 0, 2)
   \<and> map fst (calls (snd (execute_checks presubmit0 program_AKC True world0))) = [''A'', ''K'']"
proof -
  let ?ps = "[rel [''a.h'']]"
  have prog: "program_AKC = [(check_A, ?ps)] @ (check_K, ?ps) # [(check_C, ?ps)]"
    by (simp add: program_AKC_def)
  have pre: "\<forall>x\<in>set [(check_A, ?ps)]. continues kg (check_result presubmit0 (cwd world0) x)"
    for kg
    by (simp add: continues_def result_examples)
  have b: "check_result presubmit0 (cwd world0) (check_K, ?ps) = Inr CANCEL"
    by (simp add: result_examples)
  have w0: "calls world0 = []"
    by (simp add: world0_def)
  have run: "execute_checks presubmit0 program_AKC kg world0 =
      (Inr (1, 0, 2), fold (after_check presubmit0) [(check_A, ?ps), (check_K, ?ps)] world0)"
    for kg
    using cancel_halts [where keep_going = kg and post = "[(check_C, ?ps)]", OF pre b]
    by (simp add: prog count_result_def result_examples)
  show ?thesis
    unfolding run
    by (simp add: invocation_def name_examples w0)
qed

text \<open>
  C3. In a resolved program, the paths of a check are the paths of the universe whose
  textual form ends with one of the strings in \<open>endswith\<close> of its filter and is not matched
  in full (\<^verbatim>\<open>fullmatch\<close>, not \<^verbatim>\<open>search\<close>) by a pattern in \<open>exclude\<close> of its filter; the
  default filter keeps every path.
\<close>

theorem resolved_subset_membership:
  assumes "distinct_objects program"
    and "apply_filters re program universe = Inr resolved"
    and "(c, sub) \<in> set resolved"
  shows "(p \<in> set sub \<longleftrightarrow>
            p \<in> set universe
            \<and> (\<exists>e\<in>set (endswith (filter' c)). suffix e (str p))
            \<and> \<not> (\<exists>exp\<in>set (exclude (filter' c)).
                  \<exists>m. re exp = Some m \<and> fullmatch m (str p)))
     \<and> (filter' c = PathFilter_default \<longrightarrow> sub = universe)"
proof -
  have r: "resolve re (filter' c) universe = Inr sub"
    using assms by (rule resolved_pair)
  show ?thesis
    using resolve_member [OF r, of p] r by (auto simp: resolve_default)
qed

theorem resolved_subset_membership_witness:
  "apply_filters literal_re [IsCheck header_check] [rel [''a.h''], rel [''b.c''], rel [''c.H'']]
     = Inr [(header_check, [rel [''a.h'']])]
   \<and> suffix ''.h'' ''a.h'' \<and> \<not> suffix ''.h'' ''b.c'' \<and> \<not> suffix ''.h'' ''c.H''
   \<and> apply_filters literal_re [IsCheck header_check_x]
         [rel [''a.h''], rel [''gen.h''], rel [''x'', ''gen.h'']]
     = Inr [(header_check_x, [rel [''a.h''], rel [''x'', ''gen.h'']])]
   \<and> (\<exists>m. literal_re ''gen.h'' = Some m \<and> fullmatch m ''gen.h'')
   \<and> (\<exists>m. literal_re ''gen.h'' = Some m \<and> search m ''x/gen.h'' \<and> \<not> fullmatch m ''x/gen.h'')
   \<and> apply_filters literal_re full_AC [rel [''a.h''], rel [''b.c'']]
     = Inr [(check_A, [rel [''a.h''], rel [''b.c'']]), (check_C, [rel [''a.h''], rel [''b.c'']])]"
proof -
  note m = resolved_subset_membership [OF header_examples(3) header_examples(1),
      of header_check "[rel [''a.h'']]"]
  have f: "endswith (filter' header_check) = [''.h'']" "exclude (filter' header_check) = []"
    by (simp_all add: header_check_def constructed_def)
  have a: "suffix ''.h'' ''a.h''"
    using m [of "rel [''a.h'']"] by (simp add: f)
  have b: "\<not> suffix ''.h'' ''b.c''"
    using m [of "rel [''b.c'']"] by (simp add: f rel_def str_def)
  have c: "\<not> suffix ''.h'' ''c.H''"
    using m [of "rel [''c.H'']"] by (simp add: f rel_def str_def)
  note x = resolved_subset_membership [OF header_examples(4) header_examples(2),
      of header_check_x "[rel [''a.h''], rel [''x'', ''gen.h'']]"]
  have fx: "endswith (filter' header_check_x) = [''.h'']"
    "exclude (filter' header_check_x) = [''gen.h'']"
    by (simp_all add: header_check_x_def constructed_def)
  have g: "\<exists>m. literal_re ''gen.h'' = Some m \<and> fullmatch m ''gen.h''"
    using x [of "rel [''gen.h'']"] by (simp add: fx rel_def str_def suffix_to_prefix)
  have "sublist ''gen.h'' (''x/'' @ ''gen.h'' @ [])"
    by (rule sublist_appendI)
  then have s: "sublist ''gen.h'' ''x/gen.h''"
    by simp
  have h: "\<exists>m. literal_re ''gen.h'' = Some m \<and> search m ''x/gen.h'' \<and> \<not> fullmatch m ''x/gen.h''"
    using x [of "rel [''x'', ''gen.h'']"] s
    by (simp add: fx rel_def str_def suffix_to_prefix literal_re_def)
  have d: "apply_filters literal_re full_AC [rel [''a.h''], rel [''b.c'']]
     = Inr [(check_A, [rel [''a.h''], rel [''b.c'']]), (check_C, [rel [''a.h''], rel [''b.c'']])]"
    by (simp add: apply_filters_examples)
  from a b c g h d header_examples(1,2) show ?thesis
    by simp
qed



text \<open>
  C5. When \<^verbatim>\<open>_execute_checks\<close> returns, the skipped count is the length of the executed
  program minus the passed and failed counts, so the three counts add up to that length,
  and none of them is negative. When \<open>run\<close> returns, its value is true exactly when the
  failed and the skipped counts of the executed program are both zero. The run returns
  when no check lets an exception escape.
\<close>

theorem run_summary_counts:
  "(execute_checks self program keep_going w = (Inr (passed, failed, skipped), w') \<longrightarrow>
      skipped = int (length program) - passed - failed
      \<and> passed + failed + skipped = int (length program)
      \<and> 0 \<le> passed \<and> 0 \<le> failed \<and> 0 \<le> skipped)
   \<and> (run self re full_program keep_going w = (Inr success, w') \<longrightarrow>
      (\<exists>resolved p f s.
         apply_filters re full_program (presubmit_paths self) = Inr resolved
         \<and> execute_checks self resolved keep_going w = (Inr (p, f, s), w')
         \<and> (success \<longleftrightarrow> f = 0 \<and> s = 0)))
   \<and> ((\<forall>x\<in>set program. \<forall>e. check_result self (cwd w) x \<noteq> Inl e) \<longrightarrow>
      (\<exists>counts w''. execute_checks self program keep_going w = (Inr counts, w'')))"
proof (intro conjI impI)
  assume r: "execute_checks self program keep_going w = (Inr (passed, failed, skipped), w')"
  then have loop: "execute_loop self keep_going (length program) 1 program 0 0 w =
      (Inr (passed, failed), w')"
    and sk: "skipped = int (length program) - passed - failed"
    by (auto simp: execute_checks_def split: prod.splits sum.splits)
  from execute_loop_counts [OF loop]
  have "0 \<le> passed" "0 \<le> failed" "passed + failed \<le> int (length program)"
    by simp_all
  with sk show "skipped = int (length program) - passed - failed"
    and "passed + failed + skipped = int (length program)"
    and "0 \<le> passed" and "0 \<le> failed" and "0 \<le> skipped"
    by simp_all
next
  assume "run self re full_program keep_going w = (Inr success, w')"
  then show "\<exists>resolved p f s.
         apply_filters re full_program (presubmit_paths self) = Inr resolved
         \<and> execute_checks self resolved keep_going w = (Inr (p, f, s), w')
         \<and> (success \<longleftrightarrow> f = 0 \<and> s = 0)"
    by (auto simp: run_def truthy_def split: sum.splits prod.splits)
next
  assume "\<forall>x\<in>set program. \<forall>e. check_result self (cwd w) x \<noteq> Inl e"
  from execute_loop_returns [OF this, of keep_going "length program" 1 0 0]
  show "\<exists>counts w''. execute_checks self program keep_going w = (Inr counts, w'')"
    by (auto simp: execute_checks_def)
qed

theorem run_summary_counts_witness:
  "execute_checks presubmit0 program_ABC False world0 =
     (Inr (1, 1, 1),
      fold (after_check presubmit0) [(check_A, [rel [''a.h'']]), (check_B, [rel [''a.h'']])] world0)
   \<and> (1::int) = int (length program_ABC) - 1 - 1
   \<and> (1::int) + 1 + 1 = int (length program_ABC)
   \<and> fst (run presubmit0 literal_re full_ABC True world0) = Inr False
   \<and> (\<exists>resolved p f s w'.
        apply_filters literal_re full_ABC (presubmit_paths presubmit0) = Inr resolved
        \<and> execute_checks presubmit0 resolved True world0 = (Inr (p, f, s), w')
        \<and> \<not> (f = 0 \<and> s = 0))
   \<and> fst (run presubmit0 literal_re full_AC False world0) = Inr True
   \<and> (\<exists>resolved p f s w'.
        apply_filters literal_re full_AC (presubmit_paths presubmit0) = Inr resolved
        \<and> execute_checks presubmit0 resolved False world0 = (Inr (p, f, s), w')
        \<and> f = 0 \<and> s = 0)"
proof -
  let ?ps = "[rel [''a.h'']]"
  let ?w1 = "fold (after_check presubmit0) [(check_A, ?ps), (check_B, ?ps)] world0"
  have ex: "execute_checks presubmit0 program_ABC False world0 = (Inr (1, 1, 1), ?w1)"
    by (simp add: execute_checks_def program_ABC_def execute_loop_Cons result_examples)
  let ?u = "presubmit_paths presubmit0"
  let ?w2 = "fold (after_check presubmit0) [(check_A, ?u), (check_B, ?u), (check_C, ?u)] world0"
  let ?w3 = "fold (after_check presubmit0) [(check_A, ?u), (check_C, ?u)] world0"
  have run1: "run presubmit0 literal_re full_ABC True world0 = (Inr False, ?w2)"
    by (simp add: run_def apply_filters_examples execute_checks_def execute_loop_Cons
        result_examples truthy_def)
  have run2: "run presubmit0 literal_re full_AC False world0 = (Inr True, ?w3)"
    by (simp add: run_def apply_filters_examples execute_checks_def execute_loop_Cons
        result_examples truthy_def)
  have counts: "(1::int) = int (length program_ABC) - 1 - 1
      \<and> (1::int) + 1 + 1 = int (length program_ABC)"
    using run_summary_counts
      [of presubmit0 program_ABC False world0 1 1 1 ?w1 literal_re full_ABC False] ex
    by simp
  have fails: "\<exists>resolved p f s w'.
        apply_filters literal_re full_ABC (presubmit_paths presubmit0) = Inr resolved
        \<and> execute_checks presubmit0 resolved True world0 = (Inr (p, f, s), w')
        \<and> \<not> (f = 0 \<and> s = 0)"
    using run_summary_counts
      [of presubmit0 program_ABC True world0 1 1 1 ?w2 literal_re full_ABC False] run1
    by blast
  have succeeds: "\<exists>resolved p f s w'.
        apply_filters literal_re full_AC (presubmit_paths presubmit0) = Inr resolved
        \<and> execute_checks presubmit0 resolved False world0 = (Inr (p, f, s), w')
        \<and> f = 0 \<and> s = 0"
    using run_summary_counts
      [of presubmit0 program_ABC False world0 1 1 1 ?w3 literal_re full_AC True] run2
    by blast
  show ?thesis
    using ex counts fails succeeds run1 run2 by simp
qed

text \<open>
  C6, as the source has it. What a call of the check function does decides the result: a
  normal return gives \<open>PASS\<close> and logs nothing; a \<open>PresubmitFailure\<close> gives \<open>FAIL\<close> and its
  message is logged as a warning exactly when it is not empty; any other exception that is
  an \<^verbatim>\<open>Exception\<close> gives \<open>FAIL\<close> with an exception record (message and traceback); a
  \<^verbatim>\<open>KeyboardInterrupt\<close> gives \<open>CANCEL\<close>. An exception that is neither, as \<^verbatim>\<open>SystemExit\<close>
  is, gets no result: it leaves \<^verbatim>\<open>_call_function\<close>, and it leaves the run of a program that
  reaches the check, without counts.
\<close>

theorem call_function_classifies:
  "(call (check self) ctx = Returns \<longrightarrow> call_function self ctx = (Inr PASS, []))
   \<and> (call (check self) ctx = Raises (PresubmitFailure msg) \<longrightarrow>
        fst (call_function self ctx) = Inr FAIL
        \<and> (msg \<noteq> [] \<longrightarrow> snd (call_function self ctx) = [Warning msg])
        \<and> (msg = [] \<longrightarrow> snd (call_function self ctx) = []))
   \<and> (call (check self) ctx = Raises e \<and> isinstance_Exception e
          \<and> \<not> isinstance_PresubmitFailure e \<longrightarrow>
        call_function self ctx =
          (Inr FAIL, [ExceptionRecord (''Presubmit check '' @ name self @ '' failed!'')]))
   \<and> (call (check self) ctx = Raises KeyboardInterrupt \<longrightarrow>
        call_function self ctx = (Inr CANCEL, []))
   \<and> (call (check self) ctx = Raises e \<and> \<not> isinstance_Exception e
          \<and> e \<noteq> KeyboardInterrupt \<longrightarrow>
        call_function self ctx = (Inl e, []))
   \<and> ((\<forall>x\<in>set pre. continues keep_going (check_result presubmit (cwd w) x))
        \<and> check_result presubmit (cwd w) b = Inl e \<longrightarrow>
        execute_checks presubmit (pre @ b # post) keep_going w =
          (Inl e, fold (after_check presubmit) (pre @ [b]) w))"
proof -
  have escape: "call_function self ctx = (Inl e, [])"
    if "call (check self) ctx = Raises e" "\<not> isinstance_Exception e" "e \<noteq> KeyboardInterrupt"
    using that by (cases e) (simp_all add: call_function_def)
  have run: "execute_checks presubmit (pre @ b # post) keep_going w =
      (Inl e, fold (after_check presubmit) (pre @ [b]) w)"
    if pre: "\<forall>x\<in>set pre. continues keep_going (check_result presubmit (cwd w) x)"
      and b: "check_result presubmit (cwd w) b = Inl e"
    using b by (simp add: execute_checks_def execute_loop_continues [OF pre] execute_loop_Cons)
  show ?thesis
    using escape run by (auto simp: call_function_def)
qed

theorem call_function_classifies_witness:
  "call_function check_A ctx0 = (Inr PASS, [])
   \<and> call_function check_B ctx0 = (Inr FAIL, [Warning ''bad''])
   \<and> call_function check_Q ctx0 = (Inr FAIL, [])
   \<and> call_function check_E ctx0 = (Inr FAIL, [ExceptionRecord ''Presubmit check E failed!''])
   \<and> call_function check_K ctx0 = (Inr CANCEL, [])
   \<and> call_function check_X ctx0 = (Inl (OtherBaseException ''SystemExit''), [])
   \<and> fst (execute_checks presubmit0 program_AXC True world0)
       = Inl (OtherBaseException ''SystemExit'')
   \<and> map fst (calls (snd (execute_checks presubmit0 program_AXC True world0))) = [''A'', ''X'']"
proof -
  let ?ps = "[rel [''a.h'']]"
  have nm: "name check_E = ''E''"
    by (simp add: name_def check_E_def constructed_def)
  have pre: "\<forall>x\<in>set [(check_A, ?ps)]. continues True (check_result presubmit0 (cwd world0) x)"
    by (simp add: continues_def result_examples)
  have A: "call_function check_A ctx0 = (Inr PASS, [])"
    using call_function_classifies [of check_A ctx0 "[]" ReError "[]" True presubmit0 world0]
    by (simp add: call_examples)
  have B: "call_function check_B ctx0 = (Inr FAIL, [Warning ''bad''])"
    using call_function_classifies [of check_B ctx0 "''bad''" ReError "[]" True presubmit0 world0]
    by (cases "call_function check_B ctx0") (auto simp: call_examples)
  have Q: "call_function check_Q ctx0 = (Inr FAIL, [])"
    using call_function_classifies [of check_Q ctx0 "[]" ReError "[]" True presubmit0 world0]
    by (cases "call_function check_Q ctx0") (auto simp: call_examples)
  have E: "call_function check_E ctx0 =
      (Inr FAIL, [ExceptionRecord ''Presubmit check E failed!''])"
    using call_function_classifies
      [of check_E ctx0 "[]" "OtherException ''boom''" "[]" True presubmit0 world0]
    by (simp add: call_examples nm)
  have K: "call_function check_K ctx0 = (Inr CANCEL, [])"
    using call_function_classifies [of check_K ctx0 "[]" ReError "[]" True presubmit0 world0]
    by (simp add: call_examples)
  note X = call_function_classifies
    [of check_X ctx0 "[]" "OtherBaseException ''SystemExit''" "[(check_A, ?ps)]" True
      presubmit0 world0 "(check_X, ?ps)" "[(check_C, ?ps)]"]
  have X1: "call_function check_X ctx0 = (Inl (OtherBaseException ''SystemExit''), [])"
    using X by (simp add: call_examples)
  have X2: "execute_checks presubmit0 program_AXC True world0 =
      (Inl (OtherBaseException ''SystemExit''),
       fold (after_check presubmit0) [(check_A, ?ps), (check_X, ?ps)] world0)"
    using X pre by (simp add: result_examples program_AXC_def)
  have w0: "calls world0 = []"
    by (simp add: world0_def)
  from A B Q E K X1 show ?thesis
    unfolding X2 by (simp add: invocation_def name_examples w0)
qed

text \<open>A check that calls \<^verbatim>\<open>sys.exit\<close> gets none of the three results.\<close>

theorem call_function_counterexample:
  "call (check check_X) ctx0 = Raises (OtherBaseException ''SystemExit'')
   \<and> call_function check_X ctx0 = (Inl (OtherBaseException ''SystemExit''), [])
   \<and> fst (call_function check_X ctx0) \<noteq> Inr PASS
   \<and> fst (call_function check_X ctx0) \<noteq> Inr FAIL
   \<and> fst (call_function check_X ctx0) \<noteq> Inr CANCEL"
  by (simp add: call_function_def call_examples)

text \<open>
  C7. Resolving a program by grouping its checks by filter, one resolution for each group,
  gives the same result as resolving each check with its own filter, exception included.
  Two checks of the resolved program whose filters have equal fields have the same paths.
\<close>

theorem grouping_is_unobservable:
  assumes "distinct_objects program"
  shows "apply_filters re program universe =
           (case wrap_program program of
              Inl e \<Rightarrow> Inl e
            | Inr checks \<Rightarrow> resolve_each re checks universe)
     \<and> (\<forall>resolved c1 s1 c2 s2.
           apply_filters re program universe = Inr resolved
           \<and> (c1, s1) \<in> set resolved \<and> (c2, s2) \<in> set resolved
           \<and> endswith (filter' c1) = endswith (filter' c2)
           \<and> exclude (filter' c1) = exclude (filter' c2) \<longrightarrow> s1 = s2)"
proof -
  have same: "s1 = s2"
    if r: "apply_filters re program universe = Inr resolved"
      and c1: "(c1, s1) \<in> set resolved" and c2: "(c2, s2) \<in> set resolved"
      and e: "endswith (filter' c1) = endswith (filter' c2)"
      and x: "exclude (filter' c1) = exclude (filter' c2)"
    for resolved c1 s1 c2 s2
  proof -
    from e x have f: "filter' c1 = filter' c2"
      by simp
    from resolved_pair(1) [OF assms r c1] resolved_pair(1) [OF assms r c2]
    have "resolve re (filter' c1) universe = Inr s1" "resolve re (filter' c2) universe = Inr s2"
      by simp_all
    with f show ?thesis by simp
  qed
  show ?thesis
    using apply_filters_resolve_each [OF assms, of re universe] same by blast
qed

theorem grouping_is_unobservable_witness:
  "distinct_objects full_HAA
   \<and> apply_filters literal_re full_HAA [rel [''a.h''], rel [''b.c'']] =
       Inr [(header_check, [rel [''a.h'']]), (always_check, [rel [''a.h'']]),
            (check_A, [rel [''a.h''], rel [''b.c'']])]
   \<and> endswith (filter' header_check) = endswith (filter' always_check)
   \<and> exclude (filter' header_check) = exclude (filter' always_check)
   \<and> check_id header_check \<noteq> check_id always_check"
proof -
  have "apply_filters literal_re full_HAA [rel [''a.h''], rel [''b.c'']] =
       Inr [(header_check, [rel [''a.h'']]), (always_check, [rel [''a.h'']]),
            (check_A, [rel [''a.h''], rel [''b.c'']])]"
    using grouping_is_unobservable [OF full_HAA_examples(1), of literal_re
        "[rel [''a.h''], rel [''b.c'']]"]
    by (simp only: full_HAA_examples(2) sum.case full_HAA_resolved)
  then show ?thesis
    using full_HAA_examples(1)
    by (simp add: header_check_def always_check_def constructed_def)
qed

text \<open>
  C8, as the source has it. For a function with a name, the decorator raises exactly when
  the signature of the function does not have exactly one parameter, of whatever kind, and
  what it raises is a \<^verbatim>\<open>TypeError\<close>; otherwise it returns the check with the filter and the
  flag given. When all the parameters are positional ones without default, that is
  exactly when the function does not take a call with one argument. The test is made when
  the check is constructed and not again when it runs: running a constructed check never
  lets a \<^verbatim>\<open>TypeError\<close> escape; it runs the body when the call with one argument can be
  bound, and ends as \<open>FAIL\<close> when it cannot.
\<close>

theorem filter_paths_validates_signature:
  assumes "fn_name function = Some nm"
  shows
  "((\<exists>e. filter_paths ew ex ar oid function = Inl e) \<longleftrightarrow> length (parameters function) \<noteq> 1)
   \<and> (\<forall>e. filter_paths ew ex ar oid function = Inl e \<longrightarrow> (\<exists>m. e = TypeError m))
   \<and> (length (parameters function) = 1 \<longrightarrow>
        filter_paths ew ex ar oid function =
          Inr (constructed oid function nm
                 \<lparr>endswith = make_tuple ew, exclude = make_tuple ex\<rparr> ar))
   \<and> ((\<forall>p\<in>set (parameters function). p = Positional False) \<longrightarrow>
        ((\<exists>e. filter_paths ew ex ar oid function = Inl e)
           \<longleftrightarrow> \<not> binds_one_positional (parameters function)))
   \<and> (\<forall>c ctx. filter_paths ew ex ar oid function = Inr c \<longrightarrow>
        (\<forall>m. fst (call_function c ctx) \<noteq> Inl (TypeError m))
        \<and> (binds_one_positional (parameters function) \<longrightarrow>
             call (check c) ctx = body function ctx)
        \<and> (\<not> binds_one_positional (parameters function) \<longrightarrow>
             call_function c ctx =
               (Inr FAIL, [ExceptionRecord (''Presubmit check '' @ nm @ '' failed!'')])))"
proof -
  let ?c = "constructed oid function nm \<lparr>endswith = make_tuple ew, exclude = make_tuple ex\<rparr> ar"
  have fp: "filter_paths ew ex ar oid function =
      (if length (parameters function) \<noteq> 1
       then Inl (TypeError
         (''Functions wrapped with @filter_paths must take exactly one argument: '' @ nm))
       else Inr ?c)"
    using assms by (simp add: filter_paths_def Check_init_def constructed_def)
  have no_escape: "fst (call_function c ctx) \<noteq> Inl (TypeError m)" for c ctx m
  proof (cases "call (check c) ctx")
    case Returns
    then show ?thesis by (simp add: call_function_def)
  next
    case (Raises e)
    then show ?thesis by (cases e) (simp_all add: call_function_def)
  qed
  have positional: "binds_one_positional ps \<longleftrightarrow> length ps = 1"
    if "\<forall>p\<in>set ps. p = Positional False" for ps
  proof -
    from that have "filter (\<lambda>p. p = Positional False) ps = ps"
      by (simp add: filter_id_conv)
    moreover from that have "\<not> list_ex (\<lambda>p. p = KeywordOnly False) ps"
      by (auto simp: list_ex_iff)
    moreover from that
    have "list_ex (\<lambda>p. p = Positional True \<or> p = Positional False \<or> p = VarPositional) ps
        \<longleftrightarrow> ps \<noteq> []"
      by (cases ps) (auto simp: list_ex_iff)
    ultimately show ?thesis
      by (cases ps) (auto simp: binds_one_positional_def)
  qed
  have run: "(binds_one_positional (parameters function) \<longrightarrow>
        call (check ?c) ctx = body function ctx)
      \<and> (\<not> binds_one_positional (parameters function) \<longrightarrow>
        call_function ?c ctx =
          (Inr FAIL, [ExceptionRecord (''Presubmit check '' @ nm @ '' failed!'')]))" for ctx
    by (simp add: call_function_def call_def constructed_def name_def)
  show ?thesis
    using no_escape positional [of "parameters function"] run
    by (auto simp: fp)
qed

theorem filter_paths_validates_signature_witness:
  "filter_paths (Str ''.h'') (Iterable []) False (Registered 6) (returning ''pragma_once'')
     = Inr header_check
   \<and> length (parameters (returning ''pragma_once'')) = 1
   \<and> binds_one_positional (parameters (returning ''pragma_once''))
   \<and> call (check header_check) ctx0 = body (returning ''pragma_once'') ctx0
   \<and> (\<exists>m. filter_paths (Str ''.h'') (Iterable []) False (Registered 9) (no_argument ''build'')
            = Inl (TypeError m))
   \<and> length (parameters (no_argument ''build'')) \<noteq> 1
   \<and> \<not> binds_one_positional (parameters (no_argument ''build''))"
proof -
  have nm: "fn_name (returning ''pragma_once'') = Some ''pragma_once''"
    "fn_name (no_argument ''build'') = Some ''build''"
    by (simp_all add: returning_def no_argument_def)
  have one: "length (parameters (returning ''pragma_once'')) = 1"
    "binds_one_positional (parameters (returning ''pragma_once''))"
    "\<forall>p\<in>set (parameters (returning ''pragma_once'')). p = Positional False"
    by (simp_all add: returning_def binds_one_positional_def)
  have none: "length (parameters (no_argument ''build'')) \<noteq> 1"
    "\<forall>p\<in>set (parameters (no_argument ''build'')). p = Positional False"
    by (simp_all add: no_argument_def)
  note ok = filter_paths_validates_signature
    [OF nm(1), of "Str ''.h''" "Iterable []" False "Registered 6"]
  have c: "filter_paths (Str ''.h'') (Iterable []) False (Registered 6)
      (returning ''pragma_once'') = Inr header_check"
    using ok one by (simp add: header_check_def make_tuple_def)
  have r: "call (check header_check) ctx0 = body (returning ''pragma_once'') ctx0"
    using ok one c by blast
  note bad = filter_paths_validates_signature
    [OF nm(2), of "Str ''.h''" "Iterable []" False "Registered 9"]
  have e: "\<exists>m. filter_paths (Str ''.h'') (Iterable []) False (Registered 9)
      (no_argument ''build'') = Inl (TypeError m)"
    using bad none by blast
  have nb: "\<not> binds_one_positional (parameters (no_argument ''build''))"
    using bad none by blast
  from c r e nb one none show ?thesis
    by simp
qed

text \<open>
  A function \<^verbatim>\<open>def f(ctx, verbose=False)\<close> takes a call with one argument and is refused; a
  function \<^verbatim>\<open>def f(*, ctx)\<close> does not take it and is accepted, and its run ends as \<open>FAIL\<close>.
\<close>

theorem filter_paths_counterexample:
  "binds_one_positional (parameters with_default)
   \<and> filter_paths (Str []) (Iterable []) False (Registered 12) with_default =
       Inl (TypeError ''Functions wrapped with @filter_paths must take exactly one argument: f'')
   \<and> \<not> binds_one_positional (parameters keyword_only)
   \<and> filter_paths (Str []) (Iterable []) False (Registered 13) keyword_only =
       Inr (constructed (Registered 13) keyword_only ''f'' \<lparr>endswith = [[]], exclude = []\<rparr> False)
   \<and> call_function
        (constructed (Registered 13) keyword_only ''f'' \<lparr>endswith = [[]], exclude = []\<rparr> False)
        ctx0 = (Inr FAIL, [ExceptionRecord ''Presubmit check f failed!''])"
  by (simp add: binds_one_positional_def with_default_def keyword_only_def filter_paths_def
      Check_init_def constructed_def make_tuple_def call_function_def call_def name_def)

text \<open>
  C9, as the source has it. For every check that a run calls, the log file
  \<^verbatim>\<open>step.log\<close> is written in the directory named by the sanitized name of the check under
  the output directory, and that directory is the output directory of the context. The
  sanitized name is the name with every maximal run of characters that are not
  alphanumeric, underscores among them, replaced by one underscore, in lower case. It holds
  no separator and no dot, so it is one component of the path.
\<close>

theorem step_log_location:
  assumes "execute_checks self program keep_going w = (r, w')"
    and "(nm, ctx) \<in> set (calls w')" and "(nm, ctx) \<notin> set (calls w)"
  shows "absolute (cwd w) (joinpath (joinpath (presubmit_output_directory self)
                                       (segment (sanitized_name nm)))
                             (segment ''step.log'')) \<in> dom (files w')
     \<and> output_directory ctx =
         absolute (cwd w) (joinpath (presubmit_output_directory self)
                             (segment (sanitized_name nm)))
     \<and> sanitized_name nm = lower (collapse_runs (\<lambda>c. \<not> isalnum c) nm)
     \<and> CHR ''/'' \<notin> set (sanitized_name nm) \<and> CHR ''.'' \<notin> set (sanitized_name nm)"
proof -
  from execute_loop_world [of program self keep_going "length program" 1 0 0 w]
  obtain k where "snd (execute_loop self keep_going (length program) 1 program 0 0 w) =
      fold (after_check self) (take k program) w"
    by blast
  with assms(1) have w': "w' = fold (after_check self) (take k program) w"
    using execute_checks_world [of self program keep_going w] by simp
  from assms(2,3) obtain x where x: "x \<in> set (take k program)"
    and inv: "(nm, ctx) = invocation self (cwd w) x"
    unfolding w' calls_fold_after_check by auto
  from inv have nm: "nm = name (fst x)" and ctx: "ctx = check_context self (cwd w) x"
    by (simp_all add: invocation_def)
  from x have "check_log_file self (cwd w) x \<in> dom (files w')"
    unfolding w' dom_files_fold_after_check by blast
  then have log: "absolute (cwd w) (joinpath (joinpath (presubmit_output_directory self)
      (segment (sanitized_name nm))) (segment ''step.log'')) \<in> dom (files w')"
    by (simp add: check_log_file_eq nm)
  have out: "output_directory ctx =
      absolute (cwd w) (joinpath (presubmit_output_directory self) (segment (sanitized_name nm)))"
    by (simp add: output_directory_check_context nm ctx)
  show ?thesis
    using log out sanitized_name_collapse [of nm] sanitized_name_no_separator [of nm]
    by blast
qed

theorem step_log_location_witness:
  "sanitized_name ''My Check!!2'' = ''my_check_2''
   \<and> sanitized_name (''Caf'' @ [CHR 0xC9] @ '' 1'') = ''caf'' @ [CHR 0xE9] @ ''_1''
   \<and> root [''repo'', ''.presubmit'', ''my_check_2'', ''step.log'']
       \<in> dom (files (snd (execute_checks presubmit0 [(check_M, [])] False world0)))
   \<and> map fst (calls (snd (execute_checks presubmit0 [(check_M, [])] False world0)))
       = [''My Check!!2'']"
proof -
  let ?x = "(check_M, [] :: path list)"
  let ?run = "execute_checks presubmit0 [?x] False world0"
  have nm: "name check_M = ''My Check!!2''"
    by (simp add: name_def check_M_def constructed_def returning_def)
  have res: "check_result presubmit0 wd ?x = Inr PASS" for wd
    by (simp add: check_result_def call_function_def call_def check_M_def constructed_def
        returning_def binds_one_positional_def)
  have run: "?run = (Inr (1, 0, 0), after_check presubmit0 ?x world0)"
    by (simp add: execute_checks_def execute_loop_Cons res)
  have w0: "calls world0 = []" "cwd world0 = root [''repo'']"
    by (simp_all add: world0_def)
  have called: "(''My Check!!2'', check_context presubmit0 (cwd world0) ?x)
      \<in> set (calls (snd ?run))"
    by (simp add: run invocation_def nm w0)
  have fresh: "(''My Check!!2'', check_context presubmit0 (cwd world0) ?x)
      \<notin> set (calls world0)"
    by (simp add: w0)
  have p: "absolute (cwd world0) (joinpath (joinpath (presubmit_output_directory presubmit0)
      (segment ''my_check_2'')) (segment ''step.log'')) =
      root [''repo'', ''.presubmit'', ''my_check_2'', ''step.log'']"
    by (simp add: w0 absolute_def joinpath_def segment_def root_def presubmit0_def)
  have "?run = (fst ?run, snd ?run)"
    by simp
  from step_log_location [OF this called fresh, THEN conjunct1]
  have "root [''repo'', ''.presubmit'', ''my_check_2'', ''step.log'']
       \<in> dom (files (snd ?run))"
    by (simp only: sanitized_example p)
  with sanitized_latin_example show ?thesis
    by (simp add: sanitized_example run invocation_def nm w0)
qed

text \<open>
  The name \<open>a__b\<close> tells the two readings apart: the source gives \<open>a_b\<close>, while collapsing
  only the runs of characters that are neither alphanumeric nor underscore leaves the name
  as it is.
\<close>

theorem sanitized_name_counterexample:
  "sanitized_name ''a__b'' = ''a_b'' \<and> spec_sanitized_name ''a__b'' = ''a__b''
   \<and> sanitized_name ''a__b'' \<noteq> spec_sanitized_name ''a__b''"
  by code_simp




end
